theory Spec2Isabelle
  imports Complex_Main
begin

section \<open>Copy-trade engine (bot/copytrade-base.js): data model\<close>

text \<open>
  The engine is one sequential loop over blocks, transactions and receipt logs. Everything
  it reads from outside (RPC answers, quote answers, the clock) is an input of the model:
  an answer of \<open>None\<close> stands for a call that throws. Everything it does to the outside
  (RPC reads, quote requests, transactions, writes of the state file) is recorded in a
  trace of effects, in program order. Console logging is left out. Configuration values
  are taken as already parsed (integers, booleans, lists): parsing the environment is not
  part of the model, and a write of the state file is taken to succeed. JavaScript BigInt
  and the millisecond clock are \<open>int\<close>. The endless \<open>while (true)\<close> loop is read
  through its finite prefixes: a run is a list of scan cycles, each with the answers the
  outside world gives during it.
\<close>

datatype side = Buy | Sell

record trade =
  tsMs :: int
  t_side :: side
  dryRun :: bool
  t_token :: string
  watchedHash :: string
  signalAmount :: int
  sellTokenAmount :: "int option"
  quoteBuyAmount :: "string option"
  followerTx :: "string option"

text \<open>The in-memory state object, which is also the shape of the state file.\<close>

record state =
  seen :: "string list"
  trades :: "trade list"
  lastRunAt :: "int option"
  lastScannedBlock :: "int option"

record config =
  WATCH_ADDRESS :: string
  follower :: string
  DRY_RUN :: bool
  TRADE_WEI :: int
  SLIPPAGE_BPS :: int
  COOLDOWN_SECONDS :: int
  MAX_TRADES_PER_HOUR :: int
  START_LOOKBACK_BLOCKS :: int
  MAX_BLOCK_SCAN_PER_CYCLE :: int
  AUTO_SELL_ENABLED :: bool
  AUTO_SELL_BPS :: int
  MIN_SELL_TOKEN_RAW :: int
  IGNORE_TOKENS :: "string list"

text \<open>
  A quote as the engine reads it: a missing or falsy string field is the empty string;
  \<open>q_value\<close> is \<open>None\<close> when \<open>transaction.value\<close> is absent, \<open>Some None\<close> when
  \<open>BigInt(String(value))\<close> throws, \<open>Some (Some v)\<close> otherwise.
\<close>

record quote =
  q_to :: string
  q_data :: string
  q_value :: "int option option"
  q_buyAmount :: "string option"
  q_issuesAllowanceSpender :: string
  q_allowanceTarget :: string
  q_allowanceSpender :: string

text \<open>
  A receipt log. \<open>lg_data\<close> is the result of \<open>BigInt(lg.data || '0x0')\<close>, \<open>None\<close> when
  it throws.
\<close>

record log_entry =
  lg_topics :: "string list"
  lg_transactionHash :: string
  lg_address :: string
  lg_data :: "int option"

text \<open>The answers the outside world gives while one log is processed.\<close>

record log_env =
  nowGate :: int
  quote1 :: "quote option"
  balance :: "int option"
  allowance :: "int option"
  approveTx :: "string option"
  approveRec :: "string option"
  quote2 :: "quote option"
  sent :: "string option"
  sentRec :: "string option"
  nowTrade :: int
  nowPersist :: int

record receipt =
  r_status :: string
  r_logs :: "(log_entry \<times> log_env) list"

record tx =
  tx_from :: string
  tx_hash :: string
  tx_receipt :: "receipt option"

datatype tx_item = TxNull | TxHashOnly string | TxFull tx

record block =
  transactions :: "tx_item list"
  b_nowPersist :: int

record cycle =
  latest :: "int option"
  getBlock :: "int \<Rightarrow> block option"

datatype event =
    HeightFetch
  | BlockFetch int
  | ReceiptFetch string
  | SeenPush string
  | QuoteReq string string int
  | BalanceRead string string
  | AllowanceRead string string string
  | Approve string string int
  | SendTx string string int
  | WaitReceipt string
  | Persist state

datatype gate = Ok | RateReached | Cooldown

datatype allowance_error = AllowanceReadFailed | ApproveSubmitFailed | ApproveWaitFailed | ApproveFailed

section \<open>Helpers\<close>

definition ETH_PLACEHOLDER :: string where
  "ETH_PLACEHOLDER = ''0xeeeeeeeeeeeeeeeeeeeeeeeeeeeeeeeeeeeeeeee''"

definition TRANSFER_TOPIC :: string where
  "TRANSFER_TOPIC = ''0xddf252ad1be2c89b69c2b068fc378daa952ba7f163c4a11628f55a4df523b3ef''"

text \<open>viem's \<open>maxUint256\<close>.\<close>

definition maxUint256 :: int where
  "maxUint256 = 2 ^ 256 - 1"

text \<open>\<open>toLowerCase\<close> on the ASCII letters; other bytes are kept.\<close>

definition lower_char :: "char \<Rightarrow> char" where
  "lower_char c =
     (case map_of (zip ''ABCDEFGHIJKLMNOPQRSTUVWXYZ'' ''abcdefghijklmnopqrstuvwxyz'') c of
        None \<Rightarrow> c | Some d \<Rightarrow> d)"

definition normalizeAddr :: "string \<Rightarrow> string" where
  "normalizeAddr a = map lower_char a"

definition isHexDigit :: "char \<Rightarrow> bool" where
  "isHexDigit c = (c \<in> set ''0123456789abcdefABCDEF'')"

text \<open>The regular expression \<open>^0x[0-9a-fA-F]{40}$\<close>.\<close>

definition isHexAddress :: "string \<Rightarrow> bool" where
  "isHexAddress a = (length a = 42 \<and> take 2 a = ''0x'' \<and> list_all isHexDigit (drop 2 a))"

definition topicForAddress :: "string \<Rightarrow> string" where
  "topicForAddress addr = ''0x'' @ replicate 24 (CHR ''0'') @ drop 2 (normalizeAddr addr)"

text \<open>\<open>xs[i]\<close> where an index out of range gives \<open>undefined\<close>.\<close>

definition topicAt :: "string list \<Rightarrow> nat \<Rightarrow> string option" where
  "topicAt ts i = (if i < length ts then Some (ts ! i) else None)"

text \<open>\<open>xs.slice(-n)\<close>: the last \<open>n\<close> elements.\<close>

definition slice_last :: "nat \<Rightarrow> 'a list \<Rightarrow> 'a list" where
  "slice_last n xs = drop (length xs - n) xs"

text \<open>BigInt division truncates towards zero.\<close>

definition bigint_div :: "int \<Rightarrow> int \<Rightarrow> int" where
  "bigint_div a b = sgn a * sgn b * (\<bar>a\<bar> div \<bar>b\<bar>)"

fun side_str :: "side \<Rightarrow> string" where
  "side_str Buy = ''buy''"
| "side_str Sell = ''sell''"

definition dedupKey :: "string \<Rightarrow> string \<Rightarrow> side \<Rightarrow> string" where
  "dedupKey hash token sd = hash @ '':'' @ token @ '':'' @ side_str sd"

section \<open>State file\<close>

definition buildState :: "state option \<Rightarrow> state" where
  "buildState raw =
     (case raw of
        None \<Rightarrow> \<lparr>seen = [], trades = [], lastRunAt = None, lastScannedBlock = None\<rparr>
      | Some s \<Rightarrow> \<lparr>seen = seen s, trades = trades s, lastRunAt = lastRunAt s,
                  lastScannedBlock = lastScannedBlock s\<rparr>)"

text \<open>The value \<open>persistState\<close> writes to the state file.\<close>

definition persistState :: "state \<Rightarrow> int \<Rightarrow> state" where
  "persistState st now =
     \<lparr>seen = slice_last 20000 (seen st), trades = slice_last 2000 (trades st),
      lastRunAt = Some now, lastScannedBlock = lastScannedBlock st\<rparr>"

section \<open>Guardrail gate\<close>

definition recentTrades :: "state \<Rightarrow> int \<Rightarrow> trade list" where
  "recentTrades st now = filter (\<lambda>t. now - 60 * 60 * 1000 \<le> tsMs t) (trades st)"

definition isTradeAllowedByRate :: "state \<Rightarrow> int \<Rightarrow> int \<Rightarrow> int \<Rightarrow> gate" where
  "isTradeAllowedByRate st maxTradesPerHour cooldownSec now =
     (if maxTradesPerHour \<le> int (length (recentTrades st now)) then RateReached
      else if trades st \<noteq> [] \<and> now - tsMs (last (trades st)) < cooldownSec * 1000 then Cooldown
      else Ok)"

section \<open>Execution\<close>

definition ensureAllowance ::
  "string \<Rightarrow> string \<Rightarrow> string \<Rightarrow> int \<Rightarrow> log_env \<Rightarrow> event list \<times> (allowance_error + string option)" where
  "ensureAllowance token owner spender requiredAmount env =
     (case allowance env of
        None \<Rightarrow> ([AllowanceRead token owner spender], Inl AllowanceReadFailed)
      | Some a \<Rightarrow>
          if requiredAmount \<le> a then ([AllowanceRead token owner spender], Inr None)
          else (case approveTx env of
                  None \<Rightarrow> ([AllowanceRead token owner spender, Approve token spender maxUint256],
                           Inl ApproveSubmitFailed)
                | Some h \<Rightarrow>
                    (case approveRec env of
                       None \<Rightarrow> ([AllowanceRead token owner spender, Approve token spender maxUint256,
                                 WaitReceipt h], Inl ApproveWaitFailed)
                     | Some s \<Rightarrow>
                         if s \<noteq> ''success''
                         then ([AllowanceRead token owner spender, Approve token spender maxUint256,
                                WaitReceipt h], Inl ApproveFailed)
                         else ([AllowanceRead token owner spender, Approve token spender maxUint256,
                                WaitReceipt h], Inr (Some h)))))"

text \<open>
  Submission of a quote's transaction and the record of the fill: the tail of both live
  paths. \<open>dflt\<close> is the value used when the quote has no \<open>transaction.value\<close>.
\<close>

definition sendAndRecord ::
  "state \<Rightarrow> log_env \<Rightarrow> quote \<Rightarrow> int \<Rightarrow> (string \<Rightarrow> trade) \<Rightarrow> state \<times> event list" where
  "sendAndRecord st env q dflt mk =
     (case (case q_value q of None \<Rightarrow> Some dflt | Some r \<Rightarrow> r) of
        None \<Rightarrow> (st, [])
      | Some v \<Rightarrow>
          (case sent env of
             None \<Rightarrow> (st, [SendTx (q_to q) (q_data q) v])
           | Some h \<Rightarrow>
               (case sentRec env of
                  None \<Rightarrow> (st, [SendTx (q_to q) (q_data q) v, WaitReceipt h])
                | Some s \<Rightarrow>
                    (let st' = st\<lparr>trades := trades st @ [mk h]\<rparr>
                     in (st', [SendTx (q_to q) (q_data q) v, WaitReceipt h,
                               Persist (persistState st' (nowPersist env))])))))"

definition buyPath :: "config \<Rightarrow> tx \<Rightarrow> state \<Rightarrow> log_entry \<Rightarrow> log_env \<Rightarrow> int \<Rightarrow> state \<times> event list" where
  "buyPath cfg t st lg env amount =
     (case quote1 env of
        None \<Rightarrow> (st, [QuoteReq ETH_PLACEHOLDER (lg_address lg) (TRADE_WEI cfg)])
      | Some q \<Rightarrow>
          if q_to q = [] \<or> q_data q = []
          then (st, [QuoteReq ETH_PLACEHOLDER (lg_address lg) (TRADE_WEI cfg)])
          else if DRY_RUN cfg then
            (let st' = st\<lparr>trades := trades st @
                   [\<lparr>tsMs = nowTrade env, t_side = Buy, dryRun = True, t_token = lg_address lg,
                     watchedHash = tx_hash t, signalAmount = amount, sellTokenAmount = None,
                     quoteBuyAmount = q_buyAmount q, followerTx = None\<rparr>]\<rparr>
             in (st', [QuoteReq ETH_PLACEHOLDER (lg_address lg) (TRADE_WEI cfg),
                       Persist (persistState st' (nowPersist env))]))
          else
            (let r = sendAndRecord st env q (TRADE_WEI cfg)
                       (\<lambda>h. \<lparr>tsMs = nowTrade env, t_side = Buy, dryRun = False,
                             t_token = lg_address lg, watchedHash = tx_hash t,
                             signalAmount = amount, sellTokenAmount = None,
                             quoteBuyAmount = None, followerTx = Some h\<rparr>)
             in (fst r, QuoteReq ETH_PLACEHOLDER (lg_address lg) (TRADE_WEI cfg) # snd r)))"

definition quoteSpender :: "quote \<Rightarrow> string" where
  "quoteSpender q =
     (if q_issuesAllowanceSpender q \<noteq> [] then q_issuesAllowanceSpender q
      else if q_allowanceTarget q \<noteq> [] then q_allowanceTarget q
      else q_allowanceSpender q)"

text \<open>
  The live sell path after the first quote: the body of the \<open>try\<close> block.
  \<open>sellSubmit\<close> is its second half, from the check of the quote's payload on.
\<close>

definition sellSubmit ::
  "tx \<Rightarrow> state \<Rightarrow> log_entry \<Rightarrow> log_env \<Rightarrow> int \<Rightarrow> int \<Rightarrow> quote \<Rightarrow> state \<times> event list" where
  "sellSubmit t st lg env amount followerSellAmount q =
     (if q_to q = [] \<or> q_data q = [] then (st, [])
      else sendAndRecord st env q 0
             (\<lambda>h. \<lparr>tsMs = nowTrade env, t_side = Sell, dryRun = False,
                   t_token = lg_address lg, watchedHash = tx_hash t,
                   signalAmount = amount, sellTokenAmount = Some followerSellAmount,
                   quoteBuyAmount = None, followerTx = Some h\<rparr>))"

definition sellLive ::
  "config \<Rightarrow> tx \<Rightarrow> state \<Rightarrow> log_entry \<Rightarrow> log_env \<Rightarrow> int \<Rightarrow> int \<Rightarrow> quote \<Rightarrow> state \<times> event list" where
  "sellLive cfg t st lg env amount followerSellAmount q =
     (if quoteSpender q \<noteq> [] \<and> isHexAddress (quoteSpender q) then
        (case ensureAllowance (lg_address lg) (follower cfg) (quoteSpender q)
                followerSellAmount env of
           (ea, Inl err) \<Rightarrow> (st, ea)
         | (ea, Inr approved) \<Rightarrow>
             if approved \<noteq> None \<and> approved \<noteq> Some [] then
               (case quote2 env of
                  None \<Rightarrow> (st, ea @ [QuoteReq (lg_address lg) ETH_PLACEHOLDER followerSellAmount])
                | Some q' \<Rightarrow>
                    (let r = sellSubmit t st lg env amount followerSellAmount q'
                     in (fst r, ea @ QuoteReq (lg_address lg) ETH_PLACEHOLDER followerSellAmount
                                  # snd r)))
             else (let r = sellSubmit t st lg env amount followerSellAmount q
                   in (fst r, ea @ snd r)))
      else sellSubmit t st lg env amount followerSellAmount q)"

definition followerSellAmountOf :: "config \<Rightarrow> int \<Rightarrow> int" where
  "followerSellAmountOf cfg followerTokenBalance =
     bigint_div (followerTokenBalance * AUTO_SELL_BPS cfg) 10000"

definition sellPath :: "config \<Rightarrow> tx \<Rightarrow> state \<Rightarrow> log_entry \<Rightarrow> log_env \<Rightarrow> int \<Rightarrow> state \<times> event list" where
  "sellPath cfg t st lg env amount =
     (case balance env of
        None \<Rightarrow> (st, [BalanceRead (lg_address lg) (follower cfg)])
      | Some followerTokenBalance \<Rightarrow>
          if followerTokenBalance \<le> 0 then (st, [BalanceRead (lg_address lg) (follower cfg)])
          else if followerSellAmountOf cfg followerTokenBalance < MIN_SELL_TOKEN_RAW cfg
          then (st, [BalanceRead (lg_address lg) (follower cfg)])
          else
            (case quote1 env of
               None \<Rightarrow> (st, [BalanceRead (lg_address lg) (follower cfg),
                             QuoteReq (lg_address lg) ETH_PLACEHOLDER
                               (followerSellAmountOf cfg followerTokenBalance)])
             | Some q \<Rightarrow>
                 if DRY_RUN cfg then
                   (let st' = st\<lparr>trades := trades st @
                          [\<lparr>tsMs = nowTrade env, t_side = Sell, dryRun = True,
                            t_token = lg_address lg, watchedHash = tx_hash t,
                            signalAmount = amount,
                            sellTokenAmount = Some (followerSellAmountOf cfg followerTokenBalance),
                            quoteBuyAmount = q_buyAmount q, followerTx = None\<rparr>]\<rparr>
                    in (st', [BalanceRead (lg_address lg) (follower cfg),
                              QuoteReq (lg_address lg) ETH_PLACEHOLDER
                                (followerSellAmountOf cfg followerTokenBalance),
                              Persist (persistState st' (nowPersist env))]))
                 else
                   (let r = sellLive cfg t st lg env amount
                              (followerSellAmountOf cfg followerTokenBalance) q
                    in (fst r, BalanceRead (lg_address lg) (follower cfg)
                               # QuoteReq (lg_address lg) ETH_PLACEHOLDER
                                   (followerSellAmountOf cfg followerTokenBalance)
                               # snd r))))"

section \<open>Signal classifier and the per-log pipeline\<close>

text \<open>
  Lines up to \<open>if (!side) continue\<close>: the normalised hash and token and the side of a
  Transfer log, or \<open>None\<close> when the log yields no signal.
\<close>

definition classifyLog :: "config \<Rightarrow> tx \<Rightarrow> log_entry \<Rightarrow> (string \<times> string \<times> side) option" where
  "classifyLog cfg t lg =
     (let topics = map normalizeAddr (lg_topics lg);
          hash = normalizeAddr (if lg_transactionHash lg \<noteq> [] then lg_transactionHash lg
                                else tx_hash t);
          token = normalizeAddr (lg_address lg);
          watchTopic = topicForAddress (WATCH_ADDRESS cfg)
      in if hash = [] \<or> token = [] then None
         else if topicAt topics 0 \<noteq> Some (normalizeAddr TRANSFER_TOPIC) then None
         else
           (let isBuySignal = (topicAt topics 2 = Some watchTopic);
                isSellSignal = (topicAt topics 1 = Some watchTopic)
            in if isBuySignal \<and> isSellSignal then None
               else
                 (let side0 = (if isBuySignal then Some Buy else None);
                      side1 = (if isSellSignal then Some Sell else side0)
                  in (case side1 of None \<Rightarrow> None | Some sd \<Rightarrow> Some (hash, token, sd)))))"

text \<open>What happens to a signal once its key has been pushed on the seen list.\<close>

definition afterSeen ::
  "config \<Rightarrow> tx \<Rightarrow> state \<Rightarrow> log_entry \<Rightarrow> log_env \<Rightarrow> string \<Rightarrow> side \<Rightarrow> state \<times> event list" where
  "afterSeen cfg t st lg env token sd =
     (if token \<in> set (IGNORE_TOKENS cfg) then (st, [])
      else (case lg_data lg of
              None \<Rightarrow> (st, [])
            | Some amount \<Rightarrow>
                if amount \<le> 0 then (st, [])
                else if isTradeAllowedByRate st (MAX_TRADES_PER_HOUR cfg) (COOLDOWN_SECONDS cfg)
                          (nowGate env) \<noteq> Ok then (st, [])
                else if sd = Buy then buyPath cfg t st lg env amount
                else sellPath cfg t st lg env amount))"

definition processLog :: "config \<Rightarrow> tx \<Rightarrow> state \<Rightarrow> log_entry \<times> log_env \<Rightarrow> state \<times> event list" where
  "processLog cfg t st le =
     (case classifyLog cfg t (fst le) of
        None \<Rightarrow> (st, [])
      | Some (hash, token, sd) \<Rightarrow>
          if sd = Sell \<and> \<not> AUTO_SELL_ENABLED cfg then (st, [])
          else if dedupKey hash token sd \<in> set (seen st) then (st, [])
          else
            (let r = afterSeen cfg t (st\<lparr>seen := seen st @ [dedupKey hash token sd]\<rparr>)
                       (fst le) (snd le) token sd
             in (fst r, SeenPush (dedupKey hash token sd) # snd r)))"

section \<open>Loops\<close>

fun processLogs :: "config \<Rightarrow> tx \<Rightarrow> state \<Rightarrow> (log_entry \<times> log_env) list \<Rightarrow> state \<times> event list" where
  "processLogs cfg t st [] = (st, [])"
| "processLogs cfg t st (le # les) =
     (let r1 = processLog cfg t st le; r2 = processLogs cfg t (fst r1) les
      in (fst r2, snd r1 @ snd r2))"

fun processTx :: "config \<Rightarrow> state \<Rightarrow> tx_item \<Rightarrow> state \<times> event list" where
  "processTx cfg st TxNull = (st, [])"
| "processTx cfg st (TxHashOnly h) = (st, [])"
| "processTx cfg st (TxFull t) =
     (if normalizeAddr (tx_from t) \<noteq> normalizeAddr (WATCH_ADDRESS cfg) then (st, [])
      else if tx_hash t = [] then (st, [])
      else (case tx_receipt t of
              None \<Rightarrow> (st, [ReceiptFetch (tx_hash t)])
            | Some rc \<Rightarrow>
                if r_status rc \<noteq> ''success'' then (st, [ReceiptFetch (tx_hash t)])
                else (let r = processLogs cfg t st (r_logs rc)
                      in (fst r, ReceiptFetch (tx_hash t) # snd r))))"

fun processTxs :: "config \<Rightarrow> state \<Rightarrow> tx_item list \<Rightarrow> state \<times> event list" where
  "processTxs cfg st [] = (st, [])"
| "processTxs cfg st (x # xs) =
     (let r1 = processTx cfg st x; r2 = processTxs cfg (fst r1) xs
      in (fst r2, snd r1 @ snd r2))"

text \<open>The body of the loop over block heights.\<close>

definition processBlock :: "config \<Rightarrow> state \<Rightarrow> int \<Rightarrow> block option \<Rightarrow> state \<times> event list" where
  "processBlock cfg st b fetched =
     (case fetched of
        None \<Rightarrow> (st, [BlockFetch b])
      | Some blk \<Rightarrow>
          (let r = processTxs cfg st (transactions blk);
               st' = (fst r)\<lparr>lastScannedBlock := Some b\<rparr>
           in (st', BlockFetch b # snd r @ [Persist (persistState st' (b_nowPersist blk))])))"

fun processBlocks :: "config \<Rightarrow> (int \<Rightarrow> block option) \<Rightarrow> state \<Rightarrow> int list \<Rightarrow> state \<times> event list" where
  "processBlocks cfg get st [] = (st, [])"
| "processBlocks cfg get st (b # bs) =
     (let r1 = processBlock cfg st b (get b); r2 = processBlocks cfg get (fst r1) bs
      in (fst r2, snd r1 @ snd r2))"

text \<open>One iteration of the \<open>while (true)\<close> loop, without the sleep.\<close>

definition fromBlockOf :: "config \<Rightarrow> state \<Rightarrow> int \<Rightarrow> int" where
  "fromBlockOf cfg st l =
     (case lastScannedBlock st of
        None \<Rightarrow> max 0 (l - START_LOOKBACK_BLOCKS cfg)
      | Some c \<Rightarrow> c + 1)"

definition toBlockOf :: "config \<Rightarrow> state \<Rightarrow> int \<Rightarrow> int" where
  "toBlockOf cfg st l = min l (fromBlockOf cfg st l + MAX_BLOCK_SCAN_PER_CYCLE cfg - 1)"

definition scanCycle :: "config \<Rightarrow> state \<Rightarrow> cycle \<Rightarrow> state \<times> event list" where
  "scanCycle cfg st cyc =
     (case latest cyc of
        None \<Rightarrow> (st, [HeightFetch])
      | Some l \<Rightarrow>
          if l \<le> 0 then (st, [HeightFetch])
          else if fromBlockOf cfg st l \<le> l then
            (let r = processBlocks cfg (getBlock cyc) st [fromBlockOf cfg st l..toBlockOf cfg st l]
             in (fst r, HeightFetch # snd r))
          else (st, [HeightFetch]))"

fun runCycles :: "config \<Rightarrow> state \<Rightarrow> cycle list \<Rightarrow> state \<times> event list" where
  "runCycles cfg st [] = (st, [])"
| "runCycles cfg st (c # cs) =
     (let r1 = scanCycle cfg st c; r2 = runCycles cfg (fst r1) cs
      in (fst r2, snd r1 @ snd r2))"

section \<open>Reading a trace\<close>

fun pushes :: "event list \<Rightarrow> string list" where
  "pushes [] = []"
| "pushes (SeenPush k # es) = k # pushes es"
| "pushes (e # es) = pushes es"

fun blockFetches :: "event list \<Rightarrow> int list" where
  "blockFetches [] = []"
| "blockFetches (BlockFetch b # es) = b # blockFetches es"
| "blockFetches (e # es) = blockFetches es"

fun persists :: "event list \<Rightarrow> state list" where
  "persists [] = []"
| "persists (Persist s # es) = s # persists es"
| "persists (e # es) = persists es"

text \<open>The state file after a trace (or a prefix of one, when the process is killed).\<close>

definition durable :: "state option \<Rightarrow> event list \<Rightarrow> state option" where
  "durable file es = (if persists es = [] then file else Some (last (persists es)))"

section \<open>Trace invariants\<close>

definition eff_ok :: "state \<Rightarrow> state \<times> event list \<Rightarrow> bool" where
  "eff_ok st r \<longleftrightarrow>
     pushes (snd r) = [] \<and> blockFetches (snd r) = [] \<and>
     ((fst r = st \<and> persists (snd r) = []) \<or>
      (\<exists>t now. fst r = st\<lparr>trades := trades st @ [t]\<rparr> \<and>
                persists (snd r) = [persistState (fst r) now]))"

definition inner_inv :: "state \<Rightarrow> state \<times> event list \<Rightarrow> bool" where
  "inner_inv st r \<longleftrightarrow>
     seen (fst r) = seen st @ pushes (snd r) \<and> distinct (pushes (snd r)) \<and>
     set (pushes (snd r)) \<inter> set (seen st) = {} \<and>
     lastScannedBlock (fst r) = lastScannedBlock st \<and>
     blockFetches (snd r) = [] \<and>
     (\<forall>s \<in> set (persists (snd r)). lastScannedBlock s = lastScannedBlock st) \<and>
     (\<exists>new. trades (fst r) = trades st @ new \<and>
        (\<forall>t \<in> set new. \<exists>s \<in> set (persists (snd r)). t \<in> set (trades s)))"

definition neutral :: "event list \<Rightarrow> bool" where
  "neutral es \<longleftrightarrow> pushes es = [] \<and> blockFetches es = [] \<and> persists es = []"

definition seen_inv :: "state \<Rightarrow> state \<times> event list \<Rightarrow> bool" where
  "seen_inv st r \<longleftrightarrow>
     seen (fst r) = seen st @ pushes (snd r) \<and> distinct (pushes (snd r)) \<and>
     set (pushes (snd r)) \<inter> set (seen st) = {}"

definition cursorAfter :: "(int \<Rightarrow> block option) \<Rightarrow> int option \<Rightarrow> int list \<Rightarrow> int option" where
  "cursorAfter get c bs =
     (case filter (\<lambda>b. get b \<noteq> None) bs of [] \<Rightarrow> c | x # xs \<Rightarrow> Some (last (x # xs)))"

section \<open>Ledger: per-token position\<close>

text \<open>
  The state file's \<open>positions\<close> table is declared by its readers (the logs route and
  the log server); the code that updates it is not part of the sources at hand.
\<close>

record position =
  boughtRaw :: rat
  soldRaw :: rat
  qtyOpenRaw :: rat
  costOpenWei :: rat
  totalBuyEthWei :: rat
  totalSellEthWei :: rat
  realizedPnlWei :: rat
  tradesBuy :: nat
  tradesSell :: nat
  lastUpdateMs :: int

datatype fill = BuyFill rat rat | SellFill rat rat

definition emptyPosition :: position where
  "emptyPosition =
     \<lparr>boughtRaw = 0, soldRaw = 0, qtyOpenRaw = 0, costOpenWei = 0, totalBuyEthWei = 0,
      totalSellEthWei = 0, realizedPnlWei = 0, tradesBuy = 0, tradesSell = 0, lastUpdateMs = 0\<rparr>"

text \<open>
  Modelled from the spec: the position update of \<open>recordTrade\<close> (section 4.5), which is
  missing from the sources. \<open>BuyFill q spent\<close>: open quantity and open cost increase by
  the fill's quantity and the currency spent. \<open>SellFill q proceeds\<close>: realized PnL
  accrues as proceeds minus \<open>q * (costOpen / qtyOpen)\<close>, open quantity and open cost
  decrease by \<open>q\<close> and by that share, and the cumulative totals accumulate. The spec's
  formula is taken in exact arithmetic.
\<close>

fun applyFill :: "position \<Rightarrow> fill \<Rightarrow> int \<Rightarrow> position" where
  "applyFill p (BuyFill q spent) now =
     p\<lparr>boughtRaw := boughtRaw p + q, qtyOpenRaw := qtyOpenRaw p + q,
       costOpenWei := costOpenWei p + spent, totalBuyEthWei := totalBuyEthWei p + spent,
       tradesBuy := tradesBuy p + 1, lastUpdateMs := now\<rparr>"
| "applyFill p (SellFill q proceeds) now =
     p\<lparr>soldRaw := soldRaw p + q, qtyOpenRaw := qtyOpenRaw p - q,
       costOpenWei := costOpenWei p - q * (costOpenWei p / qtyOpenRaw p),
       totalSellEthWei := totalSellEthWei p + proceeds,
       realizedPnlWei := realizedPnlWei p + (proceeds - q * (costOpenWei p / qtyOpenRaw p)),
       tradesSell := tradesSell p + 1, lastUpdateMs := now\<rparr>"

text \<open>
  Modelled from the spec: the position of a token is created on its first trade and
  mutated on every later fill for that token.
\<close>

definition recordFill :: "(string \<rightharpoonup> position) \<Rightarrow> string \<Rightarrow> fill \<Rightarrow> int \<Rightarrow> (string \<rightharpoonup> position)" where
  "recordFill ps token f now =
     ps(token \<mapsto> applyFill (case ps token of None \<Rightarrow> emptyPosition | Some p \<Rightarrow> p) f now)"

text \<open>The position a fill for \<open>token\<close> is applied to.\<close>

definition positionOf :: "(string \<rightharpoonup> position) \<Rightarrow> string \<Rightarrow> position" where
  "positionOf ps token = (case ps token of None \<Rightarrow> emptyPosition | Some p \<Rightarrow> p)"

fun recordBuys :: "(string \<rightharpoonup> position) \<Rightarrow> string \<Rightarrow> (rat \<times> rat \<times> int) list \<Rightarrow> (string \<rightharpoonup> position)" where
  "recordBuys ps token [] = ps"
| "recordBuys ps token ((q, spent, now) # bs) =
     recordBuys (recordFill ps token (BuyFill q spent) now) token bs"

section \<open>Concrete inputs\<close>

definition ex_watch :: string where
  "ex_watch = ''0x2ACaC49b7920D80C3C329E30ca93D0C4b4849eC6''"

definition ex_watchTopic :: string where
  "ex_watchTopic = ''0x0000000000000000000000002acac49b7920d80c3c329e30ca93d0c4b4849ec6''"

definition ex_otherTopic :: string where
  "ex_otherTopic = ''0x0000000000000000000000001111111111111111111111111111111111111111''"

definition ex_token :: string where
  "ex_token = ''0x4200000000000000000000000000000000000006''"

definition ex_spender :: string where
  "ex_spender = ''0x0000000000001fF3684f28c67538d4D072C22734''"

definition ex_cfg :: config where
  "ex_cfg =
     \<lparr>WATCH_ADDRESS = ex_watch, follower = ''0x1111111111111111111111111111111111111111'',
      DRY_RUN = True, TRADE_WEI = 200000000000000, SLIPPAGE_BPS = 250, COOLDOWN_SECONDS = 45,
      MAX_TRADES_PER_HOUR = 20, START_LOOKBACK_BLOCKS = 8, MAX_BLOCK_SCAN_PER_CYCLE = 20,
      AUTO_SELL_ENABLED = True, AUTO_SELL_BPS = 2500, MIN_SELL_TOKEN_RAW = 1,
      IGNORE_TOKENS = []\<rparr>"

definition ex_quote :: quote where
  "ex_quote =
     \<lparr>q_to = ''0xrouter'', q_data = ''0xcalldata'', q_value = None, q_buyAmount = Some ''777'',
      q_issuesAllowanceSpender = ex_spender, q_allowanceTarget = [], q_allowanceSpender = []\<rparr>"

definition ex_env :: log_env where
  "ex_env =
     \<lparr>nowGate = 5000000, quote1 = Some ex_quote, balance = Some 1000, allowance = Some 0,
      approveTx = Some ''0xapprove'', approveRec = Some ''success'', quote2 = Some ex_quote,
      sent = Some ''0xsent'', sentRec = Some ''success'', nowTrade = 5000100,
      nowPersist = 5000101\<rparr>"

definition ex_buyLog :: log_entry where
  "ex_buyLog =
     \<lparr>lg_topics = [TRANSFER_TOPIC, ex_otherTopic, ex_watchTopic], lg_transactionHash = ''0xaa'',
      lg_address = ex_token, lg_data = Some 1000\<rparr>"

definition ex_sellLog :: log_entry where
  "ex_sellLog =
     \<lparr>lg_topics = [TRANSFER_TOPIC, ex_watchTopic, ex_otherTopic], lg_transactionHash = ''0xaa'',
      lg_address = ex_token, lg_data = Some 1000\<rparr>"

definition ex_selfLog :: log_entry where
  "ex_selfLog =
     \<lparr>lg_topics = [TRANSFER_TOPIC, ex_watchTopic, ex_watchTopic], lg_transactionHash = ''0xaa'',
      lg_address = ex_token, lg_data = Some 1000\<rparr>"

definition ex_tx :: tx where
  "ex_tx = \<lparr>tx_from = ex_watch, tx_hash = ''0xaa'', tx_receipt = None\<rparr>"

definition ex_state :: state where
  "ex_state = \<lparr>seen = [], trades = [], lastRunAt = None, lastScannedBlock = Some 10\<rparr>"

definition ex_cfgNoSell :: config where
  "ex_cfgNoSell = ex_cfg\<lparr>AUTO_SELL_ENABLED := False\<rparr>"

definition ex_cfgLive :: config where
  "ex_cfgLive = ex_cfg\<lparr>DRY_RUN := False\<rparr>"

definition ex_emptyBlock :: block where
  "ex_emptyBlock = \<lparr>transactions = [], b_nowPersist = 6000000\<rparr>"

definition ex_cycleFail :: cycle where
  "ex_cycleFail = \<lparr>latest = Some 12, getBlock = (\<lambda>b. if b = 11 then None else Some ex_emptyBlock)\<rparr>"

definition ex_cycleFailLast :: cycle where
  "ex_cycleFailLast = \<lparr>latest = Some 12, getBlock = (\<lambda>b. if b = 12 then None else Some ex_emptyBlock)\<rparr>"

definition ex_cycleNext :: cycle where
  "ex_cycleNext = \<lparr>latest = Some 13, getBlock = (\<lambda>b. Some ex_emptyBlock)\<rparr>"

definition ex_txFull :: tx where
  "ex_txFull =
     \<lparr>tx_from = ex_watch, tx_hash = ''0xaa'',
      tx_receipt = Some \<lparr>r_status = ''success'', r_logs = [(ex_buyLog, ex_env)]\<rparr>\<rparr>"

definition ex_blockBuy :: block where
  "ex_blockBuy = \<lparr>transactions = [TxFull ex_txFull], b_nowPersist = 5000200\<rparr>"

text \<open>Twenty thousand distinct keys, none of them the key of \<open>ex_buyLog\<close>.\<close>

definition ex_oldKeys :: "string list" where
  "ex_oldKeys = map (\<lambda>n. replicate (Suc n) (CHR ''1'') @ '':t:buy'') [0..<20000]"

definition ex_firstTrade :: trade where
  "ex_firstTrade =
     \<lparr>tsMs = 1000, t_side = Buy, dryRun = True, t_token = ex_token, watchedHash = ''0xaa'',
      signalAmount = 1000, sellTokenAmount = None, quoteBuyAmount = Some ''777'',
      followerTx = None\<rparr>"

text \<open>
  A state in which the signal of \<open>ex_buyLog\<close> was mirrored long ago and twenty thousand
  other signals were seen since, and the state a restart builds from its state file.
\<close>

definition ex_fullState :: state where
  "ex_fullState =
     \<lparr>seen = dedupKey ''0xaa'' ex_token Buy # ex_oldKeys, trades = [ex_firstTrade],
      lastRunAt = None, lastScannedBlock = Some 10\<rparr>"

definition ex_reloaded :: state where
  "ex_reloaded = buildState (Some (persistState ex_fullState 4000000))"

text \<open>A cycle in which every block holds the same watched transaction.\<close>

definition ex_cycleBuy :: cycle where
  "ex_cycleBuy = \<lparr>latest = Some 12, getBlock = (\<lambda>b. Some ex_blockBuy)\<rparr>"

text \<open>Two trades one minute apart, as recorded under an hourly cap above one.\<close>

definition ex_rateState :: state where
  "ex_rateState =
     \<lparr>seen = [], trades = [ex_firstTrade\<lparr>tsMs := 0\<rparr>, ex_firstTrade\<lparr>tsMs := 60000\<rparr>],
      lastRunAt = None, lastScannedBlock = Some 10\<rparr>"

definition ex_buys :: "(rat \<times> rat \<times> int) list" where
  "ex_buys = [(100, 1000, 1), (300, 5000, 2)]"

section \<open>Basic facts about traces and the pipeline\<close>

lemma pushes_append [simp]: "pushes (xs @ ys) = pushes xs @ pushes ys"
  by (induction xs rule: pushes.induct) simp_all

lemma blockFetches_append [simp]: "blockFetches (xs @ ys) = blockFetches xs @ blockFetches ys"
  by (induction xs rule: blockFetches.induct) simp_all

lemma persists_append [simp]: "persists (xs @ ys) = persists xs @ persists ys"
  by (induction xs rule: persists.induct) simp_all

lemma eff_ok_id: "neutral es \<Longrightarrow> eff_ok st (st, es)"
  by (simp add: eff_ok_def neutral_def)

lemma eff_ok_pre: "eff_ok st r \<Longrightarrow> neutral ea \<Longrightarrow> eff_ok st (fst r, ea @ snd r)"
  by (auto simp add: eff_ok_def neutral_def)

lemma eff_ok_cons: "eff_ok st r \<Longrightarrow> neutral [e] \<Longrightarrow> eff_ok st (fst r, e # snd r)"
  using eff_ok_pre [of st r "[e]"] by simp

lemma eff_ok_push:
  "neutral es \<Longrightarrow> eff_ok st (st\<lparr>trades := trades st @ [t]\<rparr>,
      es @ [Persist (persistState (st\<lparr>trades := trades st @ [t]\<rparr>) now)])"
  by (auto simp add: eff_ok_def neutral_def)

lemma sendAndRecord_ok: "eff_ok st (sendAndRecord st env q dflt mk)"
proof -
  have push: "eff_ok st (st\<lparr>trades := trades st @ [t]\<rparr>,
      [SendTx a b v, WaitReceipt h, Persist (persistState (st\<lparr>trades := trades st @ [t]\<rparr>) now)])"
    for t a b v h now
    using eff_ok_push [of "[SendTx a b v, WaitReceipt h]" st t now] by (simp add: neutral_def)
  show ?thesis
    unfolding sendAndRecord_def
    by (auto split: option.splits simp: Let_def push intro!: eff_ok_id simp: neutral_def)
qed

lemma buyPath_ok: "eff_ok st (buyPath cfg t st lg env amount)"
proof -
  have push: "eff_ok st (st\<lparr>trades := trades st @ [tr]\<rparr>,
      [QuoteReq a b v, Persist (persistState (st\<lparr>trades := trades st @ [tr]\<rparr>) now)])"
    for tr a b v now
    using eff_ok_push [of "[QuoteReq a b v]" st tr now] by (simp add: neutral_def)
  show ?thesis
    unfolding buyPath_def
    by (auto split: option.splits simp: Let_def push neutral_def
        intro!: eff_ok_id eff_ok_cons sendAndRecord_ok)
qed

lemma ensureAllowance_neutral: "neutral (fst (ensureAllowance tok own sp req env))"
  unfolding ensureAllowance_def neutral_def by (auto split: option.splits)

lemma sellSubmit_ok: "eff_ok st (sellSubmit t st lg env amount fsa q)"
  by (simp add: sellSubmit_def sendAndRecord_ok eff_ok_id neutral_def)

lemma sellLive_ok: "eff_ok st (sellLive cfg t st lg env amount fsa q)"
proof (cases "quoteSpender q \<noteq> [] \<and> isHexAddress (quoteSpender q)")
  case False
  then show ?thesis by (auto simp add: sellLive_def sellSubmit_ok)
next
  case True
  obtain ea res where ea: "ensureAllowance (lg_address lg) (follower cfg) (quoteSpender q) fsa env = (ea, res)"
    by (cases "ensureAllowance (lg_address lg) (follower cfg) (quoteSpender q) fsa env")
  have nea: "neutral ea"
    using ensureAllowance_neutral [of "lg_address lg" "follower cfg" "quoteSpender q" fsa env] ea by simp
  have nq: "neutral (ea @ [QuoteReq a b c])" for a b c
    using nea by (simp add: neutral_def)
  show ?thesis
  proof (cases res)
    case (Inl err)
    with True ea nea show ?thesis by (simp add: sellLive_def eff_ok_id)
  next
    case (Inr approved)
    show ?thesis
    proof (cases "approved \<noteq> None \<and> approved \<noteq> Some []")
      case False
      then show ?thesis
        using True ea Inr eff_ok_pre [OF sellSubmit_ok nea, of st t lg env amount fsa q]
        by (auto simp add: sellLive_def Let_def)
    next
      case ap: True
      show ?thesis
      proof (cases "quote2 env")
        case None
        with True ea Inr ap nq show ?thesis by (auto simp add: sellLive_def eff_ok_id)
      next
        case (Some q')
        with True ea Inr ap show ?thesis
          using eff_ok_pre [OF sellSubmit_ok nq, of st t lg env amount fsa q']
          by (auto simp add: sellLive_def Let_def)
      qed
    qed
  qed
qed

lemma sellPath_ok: "eff_ok st (sellPath cfg t st lg env amount)"
proof -
  have push: "eff_ok st (st\<lparr>trades := trades st @ [tr]\<rparr>,
      [BalanceRead x y, QuoteReq a b v, Persist (persistState (st\<lparr>trades := trades st @ [tr]\<rparr>) now)])"
    for tr a b v now x y
    using eff_ok_push [of "[BalanceRead x y, QuoteReq a b v]" st tr now] by (simp add: neutral_def)
  have live: "eff_ok st (fst (sellLive cfg t st lg env amount fsa q), BalanceRead x y # QuoteReq a b c # snd (sellLive cfg t st lg env amount fsa q))"
    for fsa q x y a b c
    using eff_ok_pre [OF sellLive_ok, of "[BalanceRead x y, QuoteReq a b c]"] by (simp add: neutral_def)
  show ?thesis
    unfolding sellPath_def
    by (auto split: option.splits simp: Let_def push live neutral_def intro!: eff_ok_id)
qed

lemma afterSeen_ok: "eff_ok st (afterSeen cfg t st lg env token sd)"
  unfolding afterSeen_def
  by (auto split: option.splits simp: buyPath_ok sellPath_ok neutral_def intro!: eff_ok_id)

lemma inner_inv_id: "inner_inv st (st, [])"
  by (simp add: inner_inv_def)

lemma last_in_slice_last: "xs \<noteq> [] \<Longrightarrow> 0 < n \<Longrightarrow> last xs \<in> set (slice_last n xs)"
proof -
  assume a: "xs \<noteq> []" "0 < n"
  then have lt: "length xs - n < length xs" by (cases xs) auto
  then have ne: "drop (length xs - n) xs \<noteq> []" by simp
  have "last (drop (length xs - n) xs) = last xs" using lt by (rule last_drop)
  with last_in_set [OF ne] show ?thesis by (simp add: slice_last_def)
qed

lemma inner_inv_push:
  assumes "eff_ok (st\<lparr>seen := seen st @ [k]\<rparr>) r" and "k \<notin> set (seen st)"
  shows "inner_inv st (fst r, SeenPush k # snd r)"
proof -
  let ?s1 = "st\<lparr>seen := seen st @ [k]\<rparr>"
  from assms(1) consider
    (same) "fst r = ?s1" "persists (snd r) = []" "pushes (snd r) = []" "blockFetches (snd r) = []"
  | (push) t now where "fst r = ?s1\<lparr>trades := trades ?s1 @ [t]\<rparr>"
      "persists (snd r) = [persistState (fst r) now]" "pushes (snd r) = []" "blockFetches (snd r) = []"
    by (auto simp add: eff_ok_def)
  then show ?thesis
  proof cases
    case same
    with assms(2) show ?thesis by (simp add: inner_inv_def)
  next
    case push
    have "t \<in> set (trades (persistState (fst r) now))"
      using last_in_slice_last [of "trades st @ [t]" 2000] push(1)
      by (simp add: persistState_def)
    with push assms(2) show ?thesis
      by (simp add: inner_inv_def persistState_def)
  qed
qed

lemma processLog_inv: "inner_inv st (processLog cfg t st le)"
proof (cases "classifyLog cfg t (fst le)")
  case None
  then show ?thesis by (simp add: processLog_def inner_inv_id)
next
  case (Some sig)
  obtain hash token sd where sig: "sig = (hash, token, sd)" by (cases sig)
  show ?thesis
    using Some sig
      inner_inv_push [OF afterSeen_ok, of "dedupKey hash token sd" st cfg t "fst le" "snd le" token sd]
    by (simp add: processLog_def inner_inv_id Let_def)
qed

lemma inner_inv_comp:
  assumes "inner_inv st r1" and "inner_inv (fst r1) r2"
  shows "inner_inv st (fst r2, snd r1 @ snd r2)"
proof -
  from assms(1) obtain n1 where n1: "trades (fst r1) = trades st @ n1"
    "\<forall>t \<in> set n1. \<exists>s \<in> set (persists (snd r1)). t \<in> set (trades s)"
    by (auto simp add: inner_inv_def)
  from assms(2) obtain n2 where n2: "trades (fst r2) = trades (fst r1) @ n2"
    "\<forall>t \<in> set n2. \<exists>s \<in> set (persists (snd r2)). t \<in> set (trades s)"
    by (auto simp add: inner_inv_def)
  have tr: "trades (fst r2) = trades st @ (n1 @ n2)" using n1 n2 by simp
  have cov: "\<forall>t \<in> set (n1 @ n2). \<exists>s \<in> set (persists (snd r1 @ snd r2)). t \<in> set (trades s)"
    using n1(2) n2(2) by auto
  have rest: "seen (fst r2) = seen st @ pushes (snd r1 @ snd r2)"
    "distinct (pushes (snd r1 @ snd r2))"
    "set (pushes (snd r1 @ snd r2)) \<inter> set (seen st) = {}"
    "lastScannedBlock (fst r2) = lastScannedBlock st"
    "blockFetches (snd r1 @ snd r2) = []"
    "\<forall>s \<in> set (persists (snd r1 @ snd r2)). lastScannedBlock s = lastScannedBlock st"
    using assms by (auto simp add: inner_inv_def)
  show ?thesis
    unfolding inner_inv_def fst_conv snd_conv
    using rest tr cov by blast
qed

lemma processLogs_inv: "inner_inv st (processLogs cfg t st les)"
proof (induction les arbitrary: st)
  case Nil
  show ?case by (simp add: inner_inv_id)
next
  case (Cons le les)
  show ?case
    using inner_inv_comp [OF processLog_inv Cons.IH, of st cfg t le]
    by (simp add: Let_def)
qed

lemma inner_inv_receipt: "inner_inv st r \<Longrightarrow> inner_inv st (fst r, ReceiptFetch h # snd r)"
  by (simp add: inner_inv_def)

lemma processTx_inv: "inner_inv st (processTx cfg st x)"
proof (cases x)
  case (TxFull t)
  have "inner_inv st (st, [ReceiptFetch h])" for h by (simp add: inner_inv_def)
  then show ?thesis
    using TxFull inner_inv_receipt [OF processLogs_inv]
    by (simp add: inner_inv_id Let_def split: option.splits)
qed (simp_all add: inner_inv_id)

lemma processTxs_inv: "inner_inv st (processTxs cfg st xs)"
proof (induction xs arbitrary: st)
  case Nil
  show ?case by (simp add: inner_inv_id)
next
  case (Cons x xs)
  show ?case
    using inner_inv_comp [OF processTx_inv Cons.IH, of st cfg x]
    by (simp add: Let_def)
qed

lemma seen_inv_id: "pushes es = [] \<Longrightarrow> seen_inv st (st, es)"
  by (simp add: seen_inv_def)

lemma seen_inv_comp:
  "seen_inv st r1 \<Longrightarrow> seen_inv (fst r1) r2 \<Longrightarrow> seen_inv st (fst r2, snd r1 @ snd r2)"
  by (auto simp add: seen_inv_def)

lemma inner_seen_inv: "inner_inv st r \<Longrightarrow> seen_inv st r"
  by (simp add: inner_inv_def seen_inv_def)

lemma processBlock_seen: "seen_inv st (processBlock cfg st b fetched)"
proof (cases fetched)
  case None
  then show ?thesis by (simp add: processBlock_def seen_inv_def)
next
  case (Some blk)
  have "seen_inv st (processTxs cfg st (transactions blk))"
    by (rule inner_seen_inv [OF processTxs_inv])
  then show ?thesis using Some
    by (simp add: processBlock_def Let_def seen_inv_def)
qed

lemma processBlocks_seen: "seen_inv st (processBlocks cfg get st bs)"
proof (induction bs arbitrary: st)
  case Nil
  show ?case by (simp add: seen_inv_def)
next
  case (Cons b bs)
  show ?case
    using seen_inv_comp [OF processBlock_seen Cons.IH, of st cfg b "get b"]
    by (simp add: Let_def)
qed

lemma scanCycle_seen: "seen_inv st (scanCycle cfg st cyc)"
proof -
  have "seen_inv st (fst r, HeightFetch # snd r)" if "seen_inv st r" for r
    using that by (simp add: seen_inv_def)
  then show ?thesis
    by (simp add: scanCycle_def Let_def processBlocks_seen seen_inv_id split: option.splits)
qed

lemma runCycles_seen: "seen_inv st (runCycles cfg st cycs)"
proof (induction cycs arbitrary: st)
  case Nil
  show ?case by (simp add: seen_inv_def)
next
  case (Cons c cs)
  show ?case
    using seen_inv_comp [OF scanCycle_seen Cons.IH, of st cfg c]
    by (simp add: Let_def)
qed

lemma processBlock_fetches: "blockFetches (snd (processBlock cfg st b fetched)) = [b]"
proof (cases fetched)
  case None
  then show ?thesis by (simp add: processBlock_def)
next
  case (Some blk)
  have "blockFetches (snd (processTxs cfg st (transactions blk))) = []"
    using processTxs_inv [of st cfg "transactions blk"] by (simp add: inner_inv_def)
  then show ?thesis using Some by (simp add: processBlock_def Let_def)
qed

lemma processBlocks_fetches: "blockFetches (snd (processBlocks cfg get st bs)) = bs"
  by (induction bs arbitrary: st) (simp_all add: Let_def processBlock_fetches)

lemma processBlock_cursor:
  "lastScannedBlock (fst (processBlock cfg st b fetched)) =
     (if fetched = None then lastScannedBlock st else Some b)"
  by (cases fetched) (simp_all add: processBlock_def Let_def)

lemma processBlocks_cursor:
  "lastScannedBlock (fst (processBlocks cfg get st bs)) = cursorAfter get (lastScannedBlock st) bs"
proof (induction bs arbitrary: st)
  case Nil
  show ?case by (simp add: cursorAfter_def)
next
  case (Cons b bs)
  show ?case
    using Cons.IH [of "fst (processBlock cfg st b (get b))"]
    by (auto simp add: Let_def processBlock_cursor cursorAfter_def split: list.splits)
qed

lemma scanCycle_fetches:
  "blockFetches (snd (scanCycle cfg st cyc)) =
     (case latest cyc of None \<Rightarrow> []
      | Some l \<Rightarrow> if 0 < l then [fromBlockOf cfg st l..toBlockOf cfg st l] else [])"
proof (cases "latest cyc")
  case None
  then show ?thesis by (simp add: scanCycle_def)
next
  case (Some l)
  have "[fromBlockOf cfg st l..toBlockOf cfg st l] = []" if "\<not> fromBlockOf cfg st l \<le> l"
    using that by (simp add: toBlockOf_def)
  then show ?thesis using Some
    by (auto simp add: scanCycle_def Let_def processBlocks_fetches)
qed

lemma scanCycle_cursor:
  "lastScannedBlock (fst (scanCycle cfg st cyc)) =
     (case latest cyc of None \<Rightarrow> lastScannedBlock st
      | Some l \<Rightarrow> if 0 < l then cursorAfter (getBlock cyc) (lastScannedBlock st)
                                  [fromBlockOf cfg st l..toBlockOf cfg st l]
                  else lastScannedBlock st)"
proof (cases "latest cyc")
  case None
  then show ?thesis by (simp add: scanCycle_def)
next
  case (Some l)
  have "[fromBlockOf cfg st l..toBlockOf cfg st l] = []" if "\<not> fromBlockOf cfg st l \<le> l"
    using that by (simp add: toBlockOf_def)
  then show ?thesis using Some
    by (auto simp add: scanCycle_def Let_def processBlocks_cursor cursorAfter_def)
qed

section \<open>The signal classifier\<close>

text \<open>
  Claim C9. A Transfer log whose indexed from slot (topic 1) and indexed to slot (topic 2)
  both equal the watched address's topic is classified as neither a buy nor a sell: the
  classifier yields no signal, and processing the log changes nothing and performs no
  effect.
\<close>

theorem self_transfer_discarded:
  assumes "topicAt (map normalizeAddr (lg_topics lg)) 1 = Some (topicForAddress (WATCH_ADDRESS cfg))"
    and "topicAt (map normalizeAddr (lg_topics lg)) 2 = Some (topicForAddress (WATCH_ADDRESS cfg))"
  shows "classifyLog cfg t lg = None \<and> processLog cfg t st (lg, env) = (st, [])"
proof -
  have "classifyLog cfg t lg = None"
    using assms by (simp add: classifyLog_def Let_def)
  then show ?thesis by (simp add: processLog_def)
qed

theorem self_transfer_discarded_witness:
  "topicAt (map normalizeAddr (lg_topics ex_selfLog)) 0 = Some (normalizeAddr TRANSFER_TOPIC) \<and>
   classifyLog ex_cfg ex_tx ex_selfLog = None \<and>
   processLog ex_cfg ex_tx ex_state (ex_selfLog, ex_env) = (ex_state, [])"
proof -
  have h0: "topicAt (map normalizeAddr (lg_topics ex_selfLog)) 0 = Some (normalizeAddr TRANSFER_TOPIC)"
    by code_simp
  have h1: "topicAt (map normalizeAddr (lg_topics ex_selfLog)) 1 = Some (topicForAddress (WATCH_ADDRESS ex_cfg))"
    by code_simp
  have h2: "topicAt (map normalizeAddr (lg_topics ex_selfLog)) 2 = Some (topicForAddress (WATCH_ADDRESS ex_cfg))"
    by code_simp
  show ?thesis
    using h0 self_transfer_discarded [OF h1 h2, of ex_tx ex_state ex_env] by simp
qed

section \<open>Sell signals while auto-sell is disabled\<close>

text \<open>
  Claim C4, as amended. A classified sell signal that arrives while auto-sell mirroring
  is disabled is dropped before the dedup key is computed: no trade record, no effect,
  and the seen list is left as it was.
\<close>

theorem sell_disabled_dropped_before_dedup:
  assumes "classifyLog cfg t lg = Some (hash, token, Sell)" and "\<not> AUTO_SELL_ENABLED cfg"
  shows "processLog cfg t st (lg, env) = (st, [])"
  using assms by (simp add: processLog_def)

theorem sell_disabled_dropped_before_dedup_witness:
  "processLog ex_cfgNoSell ex_tx ex_state (ex_sellLog, ex_env) = (ex_state, [])"
proof -
  have h1: "classifyLog ex_cfgNoSell ex_tx ex_sellLog = Some (''0xaa'', ex_token, Sell)"
    by code_simp
  have h2: "\<not> AUTO_SELL_ENABLED ex_cfgNoSell"
    by code_simp
  show ?thesis by (rule sell_disabled_dropped_before_dedup [OF h1 h2])
qed

text \<open>
  The claim as stated also says that the signal's identity is added to the seen list.
  It is not: after the concrete sell log is processed with auto-sell disabled, its key
  is not in the seen list.
\<close>

theorem sell_disabled_not_marked_seen:
  "classifyLog ex_cfgNoSell ex_tx ex_sellLog = Some (''0xaa'', ex_token, Sell) \<and>
   \<not> AUTO_SELL_ENABLED ex_cfgNoSell \<and>
   dedupKey ''0xaa'' ex_token Sell
     \<notin> set (seen (fst (processLog ex_cfgNoSell ex_tx ex_state (ex_sellLog, ex_env))))"
  by code_simp

section \<open>The sell path\<close>

lemma bigint_div_nonneg: "0 \<le> a \<Longrightarrow> 0 < b \<Longrightarrow> bigint_div a b = a div b"
  by (cases "a = 0") (simp_all add: bigint_div_def)

lemma sendAndRecord_state:
  "fst (sendAndRecord st env q dflt mk) = st \<or>
   (\<exists>h. fst (sendAndRecord st env q dflt mk) = st\<lparr>trades := trades st @ [mk h]\<rparr>)"
  by (simp add: sendAndRecord_def Let_def split: option.splits) blast

lemma sendAndRecord_approvals: "Approve tok sp n \<notin> set (snd (sendAndRecord st env q dflt mk))"
  by (simp add: sendAndRecord_def Let_def split: option.splits)

lemma sellSubmit_approvals: "Approve tok sp n \<notin> set (snd (sellSubmit t st lg env amount fsa q))"
  by (simp add: sellSubmit_def sendAndRecord_approvals)

lemma sellSubmit_trades:
  "trades (fst (sellSubmit t st lg env amount fsa q)) = trades st \<or>
   (\<exists>tr. trades (fst (sellSubmit t st lg env amount fsa q)) = trades st @ [tr] \<and>
         sellTokenAmount tr = Some fsa)"
proof (cases "q_to q = [] \<or> q_data q = []")
  case True
  then show ?thesis by (auto simp add: sellSubmit_def)
next
  case False
  let ?mk = "\<lambda>h. \<lparr>tsMs = nowTrade env, t_side = Sell, dryRun = False,
                   t_token = lg_address lg, watchedHash = tx_hash t,
                   signalAmount = amount, sellTokenAmount = Some fsa,
                   quoteBuyAmount = None, followerTx = Some h\<rparr>"
  from sendAndRecord_state [of st env q 0 ?mk] False show ?thesis
    by (auto simp add: sellSubmit_def)
qed

lemma sellLive_shape:
  assumes "quoteSpender q \<noteq> []" and "isHexAddress (quoteSpender q)"
    and "ensureAllowance (lg_address lg) (follower cfg) (quoteSpender q) fsa env = (ea, res)"
  shows "\<exists>q' pre. sellLive cfg t st lg env amount fsa q = (st, ea @ pre) \<and> (\<forall>tok sp n. Approve tok sp n \<notin> set pre) \<or>
      sellLive cfg t st lg env amount fsa q =
        (fst (sellSubmit t st lg env amount fsa q'), ea @ pre @ snd (sellSubmit t st lg env amount fsa q')) \<and>
      (\<forall>tok sp n. Approve tok sp n \<notin> set pre)"
proof (cases res)
  case (Inl err)
  with assms have "sellLive cfg t st lg env amount fsa q = (st, ea @ [])"
    by (simp add: sellLive_def)
  then show ?thesis by (metis empty_iff empty_set)
next
  case (Inr approved)
  show ?thesis
  proof (cases "approved \<noteq> None \<and> approved \<noteq> Some []")
    case False
    then have "approved = None \<or> approved = Some []" by simp
    with assms Inr have "sellLive cfg t st lg env amount fsa q =
        (fst (sellSubmit t st lg env amount fsa q), ea @ [] @ snd (sellSubmit t st lg env amount fsa q))"
      by (elim disjE) (simp_all add: sellLive_def Let_def)
    then show ?thesis by (metis empty_iff empty_set)
  next
    case ap: True
    show ?thesis
    proof (cases "quote2 env")
      case None
      with assms Inr ap have "sellLive cfg t st lg env amount fsa q =
          (st, ea @ [QuoteReq (lg_address lg) ETH_PLACEHOLDER fsa])"
        by (simp add: sellLive_def)
      moreover have "\<forall>tok sp n. Approve tok sp n \<notin> set [QuoteReq (lg_address lg) ETH_PLACEHOLDER fsa]"
        by simp
      ultimately show ?thesis by blast
    next
      case (Some q2)
      with assms Inr ap have "sellLive cfg t st lg env amount fsa q =
          (fst (sellSubmit t st lg env amount fsa q2),
           ea @ [QuoteReq (lg_address lg) ETH_PLACEHOLDER fsa] @ snd (sellSubmit t st lg env amount fsa q2))"
        by (simp add: sellLive_def Let_def)
      moreover have "\<forall>tok sp n. Approve tok sp n \<notin> set [QuoteReq (lg_address lg) ETH_PLACEHOLDER fsa]"
        by simp
      ultimately show ?thesis by blast
    qed
  qed
qed


lemma sellLive_trades:
  "trades (fst (sellLive cfg t st lg env amount fsa q)) = trades st \<or>
   (\<exists>tr. trades (fst (sellLive cfg t st lg env amount fsa q)) = trades st @ [tr] \<and>
         sellTokenAmount tr = Some fsa)"
proof (cases "quoteSpender q \<noteq> [] \<and> isHexAddress (quoteSpender q)")
  case False
  then have "sellLive cfg t st lg env amount fsa q = sellSubmit t st lg env amount fsa q"
    by (auto simp add: sellLive_def)
  then show ?thesis using sellSubmit_trades [of t st lg env amount fsa q] by simp
next
  case True
  obtain ea res where "ensureAllowance (lg_address lg) (follower cfg) (quoteSpender q) fsa env = (ea, res)"
    by (cases "ensureAllowance (lg_address lg) (follower cfg) (quoteSpender q) fsa env")
  from sellLive_shape [where cfg = cfg and t = t and st = st and amount = amount, OF _ _ this] True
  obtain q' where "fst (sellLive cfg t st lg env amount fsa q) = st \<or>
      fst (sellLive cfg t st lg env amount fsa q) = fst (sellSubmit t st lg env amount fsa q')"
    by (metis fst_conv)
  then show ?thesis using sellSubmit_trades [of t st lg env amount fsa q'] by auto
qed

lemma ensureAllowance_shortfall:
  assumes "allowance env = Some a" and "a < req"
  shows "\<exists>rest. fst (ensureAllowance token owner spender req env) =
           AllowanceRead token owner spender # Approve token spender maxUint256 # rest \<and>
           (\<forall>tok sp n. Approve tok sp n \<notin> set rest)"
  using assms by (simp add: ensureAllowance_def split: option.splits)

text \<open>
  Claim C10. On the live sell path, when the quote names a spender that is a hex address and
  the follower's allowance for it is below the computed sell amount, the approval submitted
  is for the maximum 256-bit unsigned integer, and it is the only approval the path
  submits: no approval is ever for the sell amount.
\<close>

theorem approve_unlimited_on_shortfall:
  assumes "quoteSpender q \<noteq> []" and "isHexAddress (quoteSpender q)"
    and "allowance env = Some a" and "a < followerSellAmount"
  shows "Approve (lg_address lg) (quoteSpender q) (2 ^ 256 - 1)
           \<in> set (snd (sellLive cfg t st lg env amount followerSellAmount q)) \<and>
         (\<forall>tok sp n. Approve tok sp n
              \<in> set (snd (sellLive cfg t st lg env amount followerSellAmount q))
            \<longrightarrow> n = 2 ^ 256 - 1 \<and> tok = lg_address lg \<and> sp = quoteSpender q)"
proof -
  obtain ea res where er:
    "ensureAllowance (lg_address lg) (follower cfg) (quoteSpender q) followerSellAmount env = (ea, res)"
    by (cases "ensureAllowance (lg_address lg) (follower cfg) (quoteSpender q) followerSellAmount env")
  from ensureAllowance_shortfall [OF assms(3,4), of "lg_address lg" "follower cfg" "quoteSpender q"] er
  obtain rest where ea: "ea = AllowanceRead (lg_address lg) (follower cfg) (quoteSpender q)
        # Approve (lg_address lg) (quoteSpender q) maxUint256 # rest"
    and rest: "\<forall>tok sp n. Approve tok sp n \<notin> set rest"
    by auto
  from sellLive_shape [OF assms(1,2) er, of t st amount]
  obtain tl where tl: "snd (sellLive cfg t st lg env amount followerSellAmount q) = ea @ tl"
    and notl: "\<forall>tok sp n. Approve tok sp n \<notin> set tl"
  proof -
    from sellLive_shape [OF assms(1,2) er, of t st amount]
    obtain q' pre where
      "sellLive cfg t st lg env amount followerSellAmount q = (st, ea @ pre) \<and>
         (\<forall>tok sp n. Approve tok sp n \<notin> set pre) \<or>
       sellLive cfg t st lg env amount followerSellAmount q =
         (fst (sellSubmit t st lg env amount followerSellAmount q'),
          ea @ pre @ snd (sellSubmit t st lg env amount followerSellAmount q')) \<and>
         (\<forall>tok sp n. Approve tok sp n \<notin> set pre)"
      by blast
    then show ?thesis
    proof (elim disjE conjE)
      assume "sellLive cfg t st lg env amount followerSellAmount q = (st, ea @ pre)"
        and "\<forall>tok sp n. Approve tok sp n \<notin> set pre"
      then show ?thesis using that [of pre] by simp
    next
      assume "sellLive cfg t st lg env amount followerSellAmount q =
         (fst (sellSubmit t st lg env amount followerSellAmount q'),
          ea @ pre @ snd (sellSubmit t st lg env amount followerSellAmount q'))"
        and "\<forall>tok sp n. Approve tok sp n \<notin> set pre"
      then show ?thesis
        using that [of "pre @ snd (sellSubmit t st lg env amount followerSellAmount q')"]
        by (simp add: sellSubmit_approvals)
    qed
  qed
  show ?thesis
    unfolding tl ea using rest notl by (auto simp add: maxUint256_def)
qed

theorem approve_unlimited_on_shortfall_witness:
  "Approve ex_token ex_spender 115792089237316195423570985008687907853269984665640564039457584007913129639935
     \<in> set (snd (sellLive ex_cfgLive ex_tx ex_state ex_sellLog ex_env 1000 250 ex_quote))"
proof -
  have h1: "quoteSpender ex_quote \<noteq> []" by code_simp
  have h2: "isHexAddress (quoteSpender ex_quote)" by code_simp
  have h3: "allowance ex_env = Some 0" by code_simp
  have h4: "(0::int) < 250" by simp
  have e1: "lg_address ex_sellLog = ex_token" by code_simp
  have e2: "quoteSpender ex_quote = ex_spender" by code_simp
  show ?thesis
    using approve_unlimited_on_shortfall [OF h1 h2 h3 h4, of ex_sellLog ex_cfgLive ex_tx ex_state 1000]
    by (simp add: e1 e2)
qed

lemma sellPath_armed:
  assumes "balance env = Some bal" and "0 < bal"
    and "MIN_SELL_TOKEN_RAW cfg \<le> followerSellAmountOf cfg bal"
  shows "(\<exists>rest. snd (sellPath cfg t st lg env amount) =
            BalanceRead (lg_address lg) (follower cfg)
            # QuoteReq (lg_address lg) ETH_PLACEHOLDER (followerSellAmountOf cfg bal) # rest) \<and>
         (trades (fst (sellPath cfg t st lg env amount)) = trades st \<or>
          (\<exists>tr. trades (fst (sellPath cfg t st lg env amount)) = trades st @ [tr] \<and>
                sellTokenAmount tr = Some (followerSellAmountOf cfg bal)))"
proof (cases "quote1 env")
  case None
  with assms show ?thesis by (simp add: sellPath_def)
next
  case (Some q)
  show ?thesis
  proof (cases "DRY_RUN cfg")
    case True
    with assms Some show ?thesis by (simp add: sellPath_def Let_def)
  next
    case False
    with assms Some
    have "sellPath cfg t st lg env amount =
        (fst (sellLive cfg t st lg env amount (followerSellAmountOf cfg bal) q),
         BalanceRead (lg_address lg) (follower cfg)
           # QuoteReq (lg_address lg) ETH_PLACEHOLDER (followerSellAmountOf cfg bal)
           # snd (sellLive cfg t st lg env amount (followerSellAmountOf cfg bal) q))"
      by (simp add: sellPath_def Let_def)
    then show ?thesis
      using sellLive_trades [of cfg t st lg env amount "followerSellAmountOf cfg bal" q] by simp
  qed
qed

text \<open>
  Claim C6. An armed sell signal enters \<open>sellPath\<close>, which first reads the follower's
  balance of the signal's token. With a balance read of \<open>bal\<close>: a zero balance drops
  the signal with no record and no quote; otherwise the sell quantity is
  \<open>bal * AUTO_SELL_BPS div 10000\<close> (floor), a function of the follower's balance and
  the configured fraction only; below the dust floor the signal is dropped; at or above
  it, that quantity is what the quote is requested for and what a trade record carries.
\<close>

theorem sell_quantity_from_follower_balance:
  assumes "balance env = Some bal" and "0 \<le> bal" and "0 \<le> AUTO_SELL_BPS cfg"
  shows "followerSellAmountOf cfg bal = bal * AUTO_SELL_BPS cfg div 10000 \<and>
     (\<exists>rest. snd (sellPath cfg t st lg env amount) =
        BalanceRead (lg_address lg) (follower cfg) # rest) \<and>
     (bal = 0 \<longrightarrow>
        sellPath cfg t st lg env amount = (st, [BalanceRead (lg_address lg) (follower cfg)])) \<and>
     (bal * AUTO_SELL_BPS cfg div 10000 < MIN_SELL_TOKEN_RAW cfg \<longrightarrow>
        sellPath cfg t st lg env amount = (st, [BalanceRead (lg_address lg) (follower cfg)])) \<and>
     (0 < bal \<and> MIN_SELL_TOKEN_RAW cfg \<le> bal * AUTO_SELL_BPS cfg div 10000 \<longrightarrow>
        (\<exists>rest. snd (sellPath cfg t st lg env amount) =
           BalanceRead (lg_address lg) (follower cfg)
           # QuoteReq (lg_address lg) ETH_PLACEHOLDER (bal * AUTO_SELL_BPS cfg div 10000) # rest) \<and>
        (trades (fst (sellPath cfg t st lg env amount)) = trades st \<or>
         (\<exists>tr. trades (fst (sellPath cfg t st lg env amount)) = trades st @ [tr] \<and>
               sellTokenAmount tr = Some (bal * AUTO_SELL_BPS cfg div 10000)))) \<and>
     (token \<notin> set (IGNORE_TOKENS cfg) \<and> lg_data lg = Some amount \<and> 0 < amount \<and>
      isTradeAllowedByRate st (MAX_TRADES_PER_HOUR cfg) (COOLDOWN_SECONDS cfg) (nowGate env) = Ok \<longrightarrow>
        afterSeen cfg t st lg env token Sell = sellPath cfg t st lg env amount)"
proof -
  have fsa: "followerSellAmountOf cfg bal = bal * AUTO_SELL_BPS cfg div 10000"
    using assms(2,3) by (simp add: followerSellAmountOf_def bigint_div_nonneg)
  have first: "\<exists>rest. snd (sellPath cfg t st lg env amount) =
        BalanceRead (lg_address lg) (follower cfg) # rest"
    by (simp add: sellPath_def Let_def split: option.splits)
  have zero: "sellPath cfg t st lg env amount = (st, [BalanceRead (lg_address lg) (follower cfg)])"
    if "bal = 0"
    using that assms(1) by (simp add: sellPath_def)
  have dust: "sellPath cfg t st lg env amount = (st, [BalanceRead (lg_address lg) (follower cfg)])"
    if "bal * AUTO_SELL_BPS cfg div 10000 < MIN_SELL_TOKEN_RAW cfg"
    using that assms(1) fsa by (simp add: sellPath_def)
  have armed: "(\<exists>rest. snd (sellPath cfg t st lg env amount) =
           BalanceRead (lg_address lg) (follower cfg)
           # QuoteReq (lg_address lg) ETH_PLACEHOLDER (bal * AUTO_SELL_BPS cfg div 10000) # rest) \<and>
        (trades (fst (sellPath cfg t st lg env amount)) = trades st \<or>
         (\<exists>tr. trades (fst (sellPath cfg t st lg env amount)) = trades st @ [tr] \<and>
               sellTokenAmount tr = Some (bal * AUTO_SELL_BPS cfg div 10000)))"
    if "0 < bal" and "MIN_SELL_TOKEN_RAW cfg \<le> bal * AUTO_SELL_BPS cfg div 10000"
    using sellPath_armed [OF assms(1) that(1), of cfg t st lg amount] that(2) fsa by simp
  have call: "afterSeen cfg t st lg env token Sell = sellPath cfg t st lg env amount"
    if "token \<notin> set (IGNORE_TOKENS cfg)" and "lg_data lg = Some amount" and "0 < amount"
      and "isTradeAllowedByRate st (MAX_TRADES_PER_HOUR cfg) (COOLDOWN_SECONDS cfg) (nowGate env) = Ok"
    using that by (simp add: afterSeen_def)
  show ?thesis
    using fsa first zero dust armed call by blast
qed

theorem sell_quantity_from_follower_balance_witness:
  "followerSellAmountOf ex_cfg 1000 = 250 \<and>
   snd (sellPath ex_cfg ex_tx ex_state ex_sellLog ex_env 777) =
     [BalanceRead ex_token (follower ex_cfg), QuoteReq ex_token ETH_PLACEHOLDER 250,
      Persist (persistState (fst (sellPath ex_cfg ex_tx ex_state ex_sellLog ex_env 777)) 5000101)] \<and>
   map sellTokenAmount (trades (fst (sellPath ex_cfg ex_tx ex_state ex_sellLog ex_env 777))) = [Some 250]"
proof -
  have h1: "balance ex_env = Some 1000" by code_simp
  have h2: "(0::int) \<le> 1000" by simp
  have h3: "0 \<le> AUTO_SELL_BPS ex_cfg" by code_simp
  have c1: "snd (sellPath ex_cfg ex_tx ex_state ex_sellLog ex_env 777) =
     [BalanceRead ex_token (follower ex_cfg), QuoteReq ex_token ETH_PLACEHOLDER 250,
      Persist (persistState (fst (sellPath ex_cfg ex_tx ex_state ex_sellLog ex_env 777)) 5000101)]"
    by code_simp
  have c2: "map sellTokenAmount (trades (fst (sellPath ex_cfg ex_tx ex_state ex_sellLog ex_env 777))) = [Some 250]"
    by code_simp
  have c3: "1000 * AUTO_SELL_BPS ex_cfg div 10000 = 250" by code_simp
  from sell_quantity_from_follower_balance [OF h1 h2 h3, of ex_tx ex_state ex_sellLog 777 ex_token]
  have "followerSellAmountOf ex_cfg 1000 = 1000 * AUTO_SELL_BPS ex_cfg div 10000" by blast
  with c1 c2 c3 show ?thesis by simp
qed

section \<open>The scan cycle\<close>

lemma scanCycle_unfold:
  assumes "latest cyc = Some l" and "0 < l" and "fromBlockOf cfg st l \<le> l"
  shows "scanCycle cfg st cyc =
     (fst (processBlocks cfg (getBlock cyc) st [fromBlockOf cfg st l..toBlockOf cfg st l]),
      HeightFetch # snd (processBlocks cfg (getBlock cyc) st [fromBlockOf cfg st l..toBlockOf cfg st l]))"
  using assms by (simp add: scanCycle_def Let_def)

text \<open>
  Claim C8. With a last processed height \<open>cursor\<close> and a chain height \<open>l\<close>, the
  blocks one scan cycle requests are, in order, exactly the closed range from
  \<open>cursor + 1\<close> up to \<open>min l (cursor + MAX_BLOCK_SCAN_PER_CYCLE)\<close>, and the cycle
  is the block loop over that range.
\<close>

theorem scan_cycle_block_range:
  assumes "lastScannedBlock st = Some cursor" and "latest cyc = Some l" and "0 \<le> cursor"
  shows "blockFetches (snd (scanCycle cfg st cyc)) =
           [cursor + 1..min l (cursor + MAX_BLOCK_SCAN_PER_CYCLE cfg)] \<and>
         (cursor < l \<longrightarrow>
            scanCycle cfg st cyc =
              (fst (processBlocks cfg (getBlock cyc) st
                      [cursor + 1..min l (cursor + MAX_BLOCK_SCAN_PER_CYCLE cfg)]),
               HeightFetch # snd (processBlocks cfg (getBlock cyc) st
                      [cursor + 1..min l (cursor + MAX_BLOCK_SCAN_PER_CYCLE cfg)])))"
proof -
  have fb: "fromBlockOf cfg st l = cursor + 1"
    using assms(1) by (simp add: fromBlockOf_def)
  have tb: "toBlockOf cfg st l = min l (cursor + MAX_BLOCK_SCAN_PER_CYCLE cfg)"
    using fb by (simp add: toBlockOf_def)
  have "[cursor + 1..min l (cursor + MAX_BLOCK_SCAN_PER_CYCLE cfg)] = []" if "\<not> 0 < l"
    using that assms(3) by simp
  then have 1: "blockFetches (snd (scanCycle cfg st cyc)) =
           [cursor + 1..min l (cursor + MAX_BLOCK_SCAN_PER_CYCLE cfg)]"
    using assms(2) fb tb by (auto simp add: scanCycle_fetches)
  have 2: "scanCycle cfg st cyc =
              (fst (processBlocks cfg (getBlock cyc) st
                      [cursor + 1..min l (cursor + MAX_BLOCK_SCAN_PER_CYCLE cfg)]),
               HeightFetch # snd (processBlocks cfg (getBlock cyc) st
                      [cursor + 1..min l (cursor + MAX_BLOCK_SCAN_PER_CYCLE cfg)]))"
    if "cursor < l"
  proof -
    from that assms(3) have "0 < l" and "fromBlockOf cfg st l \<le> l" using fb by simp_all
    from scanCycle_unfold [OF assms(2) this] fb tb show ?thesis by simp
  qed
  from 1 2 show ?thesis by blast
qed

theorem scan_cycle_block_range_witness:
  "blockFetches (snd (scanCycle ex_cfg ex_state ex_cycleNext)) = [11, 12, 13] \<and>
   blockFetches (snd (scanCycle (ex_cfg\<lparr>MAX_BLOCK_SCAN_PER_CYCLE := 2\<rparr>) ex_state ex_cycleNext)) = [11, 12]"
proof -
  have h1: "lastScannedBlock ex_state = Some 10" by code_simp
  have h2: "latest ex_cycleNext = Some 13" by code_simp
  have h3: "(0::int) \<le> 10" by simp
  have r1: "[10 + 1..min 13 (10 + MAX_BLOCK_SCAN_PER_CYCLE ex_cfg)] = [11, 12, 13]" by code_simp
  have r2: "[10 + 1..min 13 (10 + MAX_BLOCK_SCAN_PER_CYCLE (ex_cfg\<lparr>MAX_BLOCK_SCAN_PER_CYCLE := 2\<rparr>))] = [11, 12]"
    by code_simp
  from scan_cycle_block_range [OF h1 h2 h3, of ex_cfg]
    scan_cycle_block_range [OF h1 h2 h3, of "ex_cfg\<lparr>MAX_BLOCK_SCAN_PER_CYCLE := 2\<rparr>"]
  show ?thesis unfolding r1 r2 by blast
qed

lemma sorted_le_last: "sorted xs \<Longrightarrow> x \<in> set xs \<Longrightarrow> x \<le> last (xs :: int list)"
  by (induction xs) auto

lemma cursorAfter_cases:
  "cursorAfter get (Some c) bs = Some c \<and> (\<forall>b \<in> set bs. get b = None) \<or>
   (\<exists>c'. cursorAfter get (Some c) bs = Some c' \<and> c' \<in> set bs \<and> get c' \<noteq> None \<and>
      (sorted bs \<longrightarrow> (\<forall>b \<in> set bs. get b \<noteq> None \<longrightarrow> b \<le> c')))"
proof (cases "filter (\<lambda>b. get b \<noteq> None) bs")
  case Nil
  then have "\<forall>b \<in> set bs. get b = None" by (simp add: filter_empty_conv)
  with Nil show ?thesis by (simp add: cursorAfter_def)
next
  case (Cons x xs)
  let ?f = "filter (\<lambda>b. get b \<noteq> None) bs"
  have ne: "?f \<noteq> []" using Cons by simp
  have ca: "cursorAfter get (Some c) bs = Some (last ?f)"
    using Cons by (simp add: cursorAfter_def)
  have mem: "last ?f \<in> set ?f" using ne by (rule last_in_set)
  then have m1: "last ?f \<in> set bs" and m2: "get (last ?f) \<noteq> None" by simp_all
  have mx: "b \<le> last ?f" if "sorted bs" and "b \<in> set bs" and "get b \<noteq> None" for b
  proof -
    have "sorted ?f" using that(1) by (rule sorted_wrt_filter)
    moreover have "b \<in> set ?f" using that(2,3) by simp
    ultimately show ?thesis by (rule sorted_le_last)
  qed
  show ?thesis using ca m1 m2 mx by blast
qed


lemma scanCycle_cursor_some:
  assumes "lastScannedBlock st = Some c" and "latest cyc = Some l" and "0 < l"
  shows "lastScannedBlock (fst (scanCycle cfg st cyc)) =
     cursorAfter (getBlock cyc) (Some c) [c + 1..min l (c + MAX_BLOCK_SCAN_PER_CYCLE cfg)]"
  using assms by (simp add: scanCycle_cursor fromBlockOf_def toBlockOf_def)

lemma scanCycle_fetches_some:
  assumes "lastScannedBlock st = Some c" and "latest cyc = Some l" and "0 < l"
  shows "blockFetches (snd (scanCycle cfg st cyc)) = [c + 1..min l (c + MAX_BLOCK_SCAN_PER_CYCLE cfg)]"
  using assms by (simp add: scanCycle_fetches fromBlockOf_def toBlockOf_def)

lemma scanCycle_fetches_above:
  assumes "lastScannedBlock st = Some c" and "b \<in> set (blockFetches (snd (scanCycle cfg st cyc)))"
  shows "c < b"
  using assms by (auto simp add: scanCycle_fetches fromBlockOf_def split: option.splits if_splits)

text \<open>
  Claim C3, as amended. If fetching block \<open>b\<close> of the cycle's range fails, the block
  is skipped (the loop body does nothing but the failed fetch) and the cycle never sets
  the cursor to \<open>b\<close>: the cursor ends at the last block of the range that was fetched,
  or where it was when none was. When no later block of the range is fetched, the cursor
  ends below \<open>b\<close> and the next cycle fetches \<open>b\<close> again. When a later block of the
  range is fetched, the cursor ends past \<open>b\<close> and no later cycle fetches \<open>b\<close>.
\<close>

theorem failed_block_skipped:
  assumes "lastScannedBlock st = Some c" and "latest cyc = Some l" and "0 < l"
    and "c < b" and "b \<le> min l (c + MAX_BLOCK_SCAN_PER_CYCLE cfg)" and "getBlock cyc b = None"
  shows "processBlock cfg s b (getBlock cyc b) = (s, [BlockFetch b]) \<and>
     lastScannedBlock (fst (scanCycle cfg st cyc)) =
       cursorAfter (getBlock cyc) (Some c) [c + 1..min l (c + MAX_BLOCK_SCAN_PER_CYCLE cfg)] \<and>
     lastScannedBlock (fst (scanCycle cfg st cyc)) \<noteq> Some b \<and>
     ((\<forall>b'. b < b' \<and> b' \<le> min l (c + MAX_BLOCK_SCAN_PER_CYCLE cfg) \<longrightarrow> getBlock cyc b' = None) \<longrightarrow>
        (\<exists>c'. lastScannedBlock (fst (scanCycle cfg st cyc)) = Some c' \<and> c \<le> c' \<and> c' < b) \<and>
        (\<forall>cyc' l'. latest cyc' = Some l' \<and> l \<le> l' \<longrightarrow>
           b \<in> set (blockFetches (snd (scanCycle cfg (fst (scanCycle cfg st cyc)) cyc'))))) \<and>
     ((\<exists>b'. b < b' \<and> b' \<le> min l (c + MAX_BLOCK_SCAN_PER_CYCLE cfg) \<and> getBlock cyc b' \<noteq> None) \<longrightarrow>
        (\<exists>c'. lastScannedBlock (fst (scanCycle cfg st cyc)) = Some c' \<and> b < c') \<and>
        (\<forall>cyc'. b \<notin> set (blockFetches (snd (scanCycle cfg (fst (scanCycle cfg st cyc)) cyc')))))"
proof -
  let ?hi = "min l (c + MAX_BLOCK_SCAN_PER_CYCLE cfg)"
  let ?st1 = "fst (scanCycle cfg st cyc)"
  have skip: "processBlock cfg s b (getBlock cyc b) = (s, [BlockFetch b])"
    using assms(6) by (simp add: processBlock_def)
  have cur: "lastScannedBlock ?st1 = cursorAfter (getBlock cyc) (Some c) [c + 1..?hi]"
    using assms(1-3) by (rule scanCycle_cursor_some)
  have cases: "lastScannedBlock ?st1 = Some c \<and> (\<forall>x. c < x \<and> x \<le> ?hi \<longrightarrow> getBlock cyc x = None) \<or>
      (\<exists>c'. lastScannedBlock ?st1 = Some c' \<and> c < c' \<and> c' \<le> ?hi \<and> getBlock cyc c' \<noteq> None \<and>
         (\<forall>x. c < x \<and> x \<le> ?hi \<and> getBlock cyc x \<noteq> None \<longrightarrow> x \<le> c'))"
    using cursorAfter_cases [of "getBlock cyc" c "[c + 1..?hi]"] unfolding cur by auto
  have neq: "lastScannedBlock ?st1 \<noteq> Some b"
    using cases assms(4,6) by auto
  have low: "\<exists>c'. lastScannedBlock ?st1 = Some c' \<and> c \<le> c' \<and> c' < b"
    if "\<forall>b'. b < b' \<and> b' \<le> ?hi \<longrightarrow> getBlock cyc b' = None"
  proof -
    from cases show ?thesis
    proof
      assume "lastScannedBlock ?st1 = Some c \<and> (\<forall>x. c < x \<and> x \<le> ?hi \<longrightarrow> getBlock cyc x = None)"
      then show ?thesis using assms(4) by simp
    next
      assume "\<exists>c'. lastScannedBlock ?st1 = Some c' \<and> c < c' \<and> c' \<le> ?hi \<and> getBlock cyc c' \<noteq> None \<and>
         (\<forall>x. c < x \<and> x \<le> ?hi \<and> getBlock cyc x \<noteq> None \<longrightarrow> x \<le> c')"
      then obtain c' where c': "lastScannedBlock ?st1 = Some c'" "c < c'" "c' \<le> ?hi" "getBlock cyc c' \<noteq> None"
        by blast
      have "\<not> b < c'" using that c'(3,4) by auto
      moreover have "c' \<noteq> b" using c'(4) assms(6) by auto
      ultimately have "c' < b" by simp
      with c'(1,2) show ?thesis by simp
    qed
  qed
  have high: "\<exists>c'. lastScannedBlock ?st1 = Some c' \<and> b < c'"
    if "\<exists>b'. b < b' \<and> b' \<le> ?hi \<and> getBlock cyc b' \<noteq> None"
  proof -
    from that obtain b' where b': "b < b'" "b' \<le> ?hi" "getBlock cyc b' \<noteq> None" by blast
    then have cb: "c < b'" using assms(4) by simp
    from cases show ?thesis
    proof
      assume "lastScannedBlock ?st1 = Some c \<and> (\<forall>x. c < x \<and> x \<le> ?hi \<longrightarrow> getBlock cyc x = None)"
      then show ?thesis using b' cb by auto
    next
      assume "\<exists>c'. lastScannedBlock ?st1 = Some c' \<and> c < c' \<and> c' \<le> ?hi \<and> getBlock cyc c' \<noteq> None \<and>
         (\<forall>x. c < x \<and> x \<le> ?hi \<and> getBlock cyc x \<noteq> None \<longrightarrow> x \<le> c')"
      then obtain c' where c': "lastScannedBlock ?st1 = Some c'"
        "\<forall>x. c < x \<and> x \<le> ?hi \<and> getBlock cyc x \<noteq> None \<longrightarrow> x \<le> c'"
        by blast
      from c'(2) b' cb have "b' \<le> c'" by auto
      with b'(1) c'(1) show ?thesis by simp
    qed
  qed
  have again: "b \<in> set (blockFetches (snd (scanCycle cfg ?st1 cyc')))"
    if "lastScannedBlock ?st1 = Some c'" and "c \<le> c'" and "c' < b"
      and "latest cyc' = Some l'" and "l \<le> l'" for c' cyc' l'
  proof -
    have "0 < l'" using assms(3) that(5) by simp
    from scanCycle_fetches_some [OF that(1,4) this, of cfg]
    show ?thesis using that(2,3,5) assms(5) by auto
  qed
  have never: "b \<notin> set (blockFetches (snd (scanCycle cfg ?st1 cyc')))"
    if "lastScannedBlock ?st1 = Some c'" and "b < c'" for c' cyc'
    using scanCycle_fetches_above [OF that(1), of b cfg cyc'] that(2) by auto
  show ?thesis
  proof (intro conjI impI)
    show "processBlock cfg s b (getBlock cyc b) = (s, [BlockFetch b])" by (rule skip)
    show "lastScannedBlock ?st1 = cursorAfter (getBlock cyc) (Some c) [c + 1..?hi]" by (rule cur)
    show "lastScannedBlock ?st1 \<noteq> Some b" by (rule neq)
    show "\<exists>c'. lastScannedBlock ?st1 = Some c' \<and> c \<le> c' \<and> c' < b"
      if "\<forall>b'. b < b' \<and> b' \<le> ?hi \<longrightarrow> getBlock cyc b' = None"
      using that by (rule low)
    show "\<forall>cyc' l'. latest cyc' = Some l' \<and> l \<le> l' \<longrightarrow>
           b \<in> set (blockFetches (snd (scanCycle cfg ?st1 cyc')))"
      if "\<forall>b'. b < b' \<and> b' \<le> ?hi \<longrightarrow> getBlock cyc b' = None"
      using low [OF that] again by blast
    show "\<exists>c'. lastScannedBlock ?st1 = Some c' \<and> b < c'"
      if "\<exists>b'. b < b' \<and> b' \<le> ?hi \<and> getBlock cyc b' \<noteq> None"
      using that by (rule high)
    show "\<forall>cyc'. b \<notin> set (blockFetches (snd (scanCycle cfg ?st1 cyc')))"
      if "\<exists>b'. b < b' \<and> b' \<le> ?hi \<and> getBlock cyc b' \<noteq> None"
      using high [OF that] never by blast
  qed
qed


theorem failed_block_skipped_witness:
  "12 \<in> set (blockFetches (snd (scanCycle ex_cfg (fst (scanCycle ex_cfg ex_state ex_cycleFailLast)) ex_cycleNext))) \<and>
   11 \<notin> set (blockFetches (snd (scanCycle ex_cfg (fst (scanCycle ex_cfg ex_state ex_cycleFail)) ex_cycleNext)))"
proof -
  have h1: "lastScannedBlock ex_state = Some 10" by code_simp
  have h2: "latest ex_cycleFailLast = Some 12" by code_simp
  have h2': "latest ex_cycleFail = Some 12" by code_simp
  have h3: "(0::int) < 12" by simp
  have h4: "(10::int) < 12" by simp
  have h4': "(10::int) < 11" by simp
  have h5: "12 \<le> min 12 (10 + MAX_BLOCK_SCAN_PER_CYCLE ex_cfg)" by code_simp
  have h5': "11 \<le> min 12 (10 + MAX_BLOCK_SCAN_PER_CYCLE ex_cfg)" by code_simp
  have h6: "getBlock ex_cycleFailLast 12 = None" by code_simp
  have h6': "getBlock ex_cycleFail 11 = None" by code_simp
  have n: "latest ex_cycleNext = Some 13" by code_simp
  have later: "\<forall>b'. 12 < b' \<and> b' \<le> min 12 (10 + MAX_BLOCK_SCAN_PER_CYCLE ex_cfg) \<longrightarrow>
      getBlock ex_cycleFailLast b' = None"
    by auto
  have ok12: "getBlock ex_cycleFail 12 \<noteq> None" by code_simp
  have later': "\<exists>b'. 11 < b' \<and> b' \<le> min 12 (10 + MAX_BLOCK_SCAN_PER_CYCLE ex_cfg) \<and>
      getBlock ex_cycleFail b' \<noteq> None"
    using h5 ok12 by (intro exI [of _ 12]) simp
  have l12: "(12::int) \<le> 13" by simp
  from failed_block_skipped [OF h1 h2 h3 h4 h5 h6, of ex_state] later n l12
  have a: "12 \<in> set (blockFetches (snd (scanCycle ex_cfg (fst (scanCycle ex_cfg ex_state ex_cycleFailLast)) ex_cycleNext)))"
    by blast
  from failed_block_skipped [OF h1 h2' h3 h4' h5' h6', of ex_state] later'
  have b: "11 \<notin> set (blockFetches (snd (scanCycle ex_cfg (fst (scanCycle ex_cfg ex_state ex_cycleFail)) ex_cycleNext)))"
    by blast
  from a b show ?thesis by simp
qed

text \<open>
  The claim as stated says the cursor never advances past a block whose fetch failed.
  Here block 11 fails and block 12 is fetched in the same cycle: the cursor ends at 12
  and the next cycle starts at 13.
\<close>

theorem failed_block_cursor_advances_past:
  "lastScannedBlock ex_state = Some 10 \<and> latest ex_cycleFail = Some 12 \<and>
   getBlock ex_cycleFail 11 = None \<and>
   blockFetches (snd (scanCycle ex_cfg ex_state ex_cycleFail)) = [11, 12] \<and>
   lastScannedBlock (fst (scanCycle ex_cfg ex_state ex_cycleFail)) = Some 12 \<and>
   blockFetches (snd (scanCycle ex_cfg (fst (scanCycle ex_cfg ex_state ex_cycleFail)) ex_cycleNext)) = [13]"
  by code_simp

section \<open>Write ordering within a block\<close>

lemma persists_take_subset: "set (persists (take n es)) \<subseteq> set (persists es)"
proof -
  have "persists es = persists (take n es) @ persists (drop n es)"
    by (simp flip: persists_append)
  then show ?thesis by simp
qed

lemma durable_cursor:
  assumes "lastScannedBlock (buildState disk) = c"
    and "\<forall>s \<in> set (persists es). lastScannedBlock s = c"
  shows "lastScannedBlock (buildState (durable disk es)) = c"
proof (cases "persists es = []")
  case True
  with assms(1) show ?thesis by (simp add: durable_def)
next
  case False
  then have "last (persists es) \<in> set (persists es)" by (rule last_in_set)
  with assms(2) False show ?thesis by (simp add: durable_def buildState_def)
qed

text \<open>
  Claim C5. While a fetched block \<open>b\<close> is processed, every trade record appended is
  written to the state file straight away, in a write that still carries the cursor the
  block started with; the write that sets the cursor to \<open>b\<close> is the last effect of
  the block. So the state file never has the cursor at \<open>b\<close> before the records of
  \<open>b\<close> were written, and a process killed anywhere before that last write leaves a
  state file whose cursor is the one the block started with.
\<close>

theorem trades_persisted_before_cursor:
  assumes "processBlock cfg st b (Some blk) = (st', es)"
  shows "\<exists>inner new.
     es = BlockFetch b # inner @ [Persist (persistState st' (b_nowPersist blk))] \<and>
     lastScannedBlock st' = Some b \<and>
     trades st' = trades st @ new \<and>
     (\<forall>t \<in> set new. \<exists>s \<in> set (persists inner). t \<in> set (trades s)) \<and>
     (\<forall>s \<in> set (persists inner). lastScannedBlock s = lastScannedBlock st) \<and>
     (\<forall>disk n. lastScannedBlock (buildState disk) = lastScannedBlock st \<and> n < length es \<longrightarrow>
        lastScannedBlock (buildState (durable disk (take n es))) = lastScannedBlock st) \<and>
     (\<forall>disk. durable disk es = Some (persistState st' (b_nowPersist blk)))"
proof -
  let ?r = "processTxs cfg st (transactions blk)"
  let ?inner = "snd ?r"
  have st': "st' = (fst ?r)\<lparr>lastScannedBlock := Some b\<rparr>"
    and es: "es = BlockFetch b # ?inner @ [Persist (persistState st' (b_nowPersist blk))]"
    using assms by (auto simp add: processBlock_def Let_def)
  from processTxs_inv [of st cfg "transactions blk"]
  obtain new where new: "trades (fst ?r) = trades st @ new"
    "\<forall>t \<in> set new. \<exists>s \<in> set (persists ?inner). t \<in> set (trades s)"
    and cur: "\<forall>s \<in> set (persists ?inner). lastScannedBlock s = lastScannedBlock st"
    by (auto simp add: inner_inv_def)
  have crash: "lastScannedBlock (buildState (durable disk (take n es))) = lastScannedBlock st"
    if "lastScannedBlock (buildState disk) = lastScannedBlock st" and "n < length es" for disk n
  proof -
    from that(2) have "take n es = take n (BlockFetch b # ?inner)"
      unfolding es by (simp add: take_Cons' )
    then have "set (persists (take n es)) \<subseteq> set (persists (BlockFetch b # ?inner))"
      using persists_take_subset [of n "BlockFetch b # ?inner"] by simp
    with cur have "\<forall>s \<in> set (persists (take n es)). lastScannedBlock s = lastScannedBlock st"
      by auto
    with that(1) show ?thesis by (rule durable_cursor)
  qed
  have final: "durable disk es = Some (persistState st' (b_nowPersist blk))" for disk
    unfolding es by (simp add: durable_def)
  have 1: "lastScannedBlock st' = Some b" and 2: "trades st' = trades st @ new"
    using st' new(1) by simp_all
  show ?thesis
    using es 1 2 new(2) cur crash final by blast
qed


theorem trades_persisted_before_cursor_witness:
  "\<exists>inner new.
     snd (processBlock ex_cfg ex_state 11 (Some ex_blockBuy)) =
       BlockFetch 11 # inner @
         [Persist (persistState (fst (processBlock ex_cfg ex_state 11 (Some ex_blockBuy))) 5000200)] \<and>
     new \<noteq> [] \<and>
     trades (fst (processBlock ex_cfg ex_state 11 (Some ex_blockBuy))) = new \<and>
     (\<forall>t \<in> set new. \<exists>s \<in> set (persists inner). t \<in> set (trades s)) \<and>
     (\<forall>s \<in> set (persists inner). lastScannedBlock s = Some 10)"
proof -
  let ?P = "processBlock ex_cfg ex_state 11 (Some ex_blockBuy)"
  have p: "?P = (fst ?P, snd ?P)" by simp
  have n: "length (trades (fst ?P)) = 1" by code_simp
  have e: "trades ex_state = []" by code_simp
  have c: "lastScannedBlock ex_state = Some 10" by code_simp
  have b: "b_nowPersist ex_blockBuy = 5000200" by code_simp
  from trades_persisted_before_cursor [OF p]
  obtain inner new where
    "snd ?P = BlockFetch 11 # inner @ [Persist (persistState (fst ?P) (b_nowPersist ex_blockBuy))]"
    "trades (fst ?P) = trades ex_state @ new"
    "\<forall>t \<in> set new. \<exists>s \<in> set (persists inner). t \<in> set (trades s)"
    "\<forall>s \<in> set (persists inner). lastScannedBlock s = lastScannedBlock ex_state"
    by blast
  moreover from this(2) n e have "new \<noteq> []" by auto
  ultimately show ?thesis unfolding e c b by (intro exI [of _ inner] exI [of _ new]) simp
qed


section \<open>Deduplication\<close>

lemma processLog_cases:
  "processLog cfg t st (lg, env) = (st, []) \<or>
   (\<exists>hash token sd rest.
      classifyLog cfg t lg = Some (hash, token, sd) \<and>
      dedupKey hash token sd \<notin> set (seen st) \<and>
      snd (processLog cfg t st (lg, env)) = SeenPush (dedupKey hash token sd) # rest \<and>
      pushes rest = [] \<and>
      seen (fst (processLog cfg t st (lg, env))) = seen st @ [dedupKey hash token sd] \<and>
      (trades (fst (processLog cfg t st (lg, env))) = trades st \<or>
       (\<exists>tr. trades (fst (processLog cfg t st (lg, env))) = trades st @ [tr])))"
proof (cases "classifyLog cfg t lg")
  case None
  then show ?thesis by (simp add: processLog_def)
next
  case (Some sig)
  obtain hash token sd where sig: "sig = (hash, token, sd)" by (cases sig)
  let ?k = "dedupKey hash token sd"
  let ?s1 = "st\<lparr>seen := seen st @ [?k]\<rparr>"
  let ?r = "afterSeen cfg t ?s1 lg env token sd"
  show ?thesis
  proof (cases "(sd = Sell \<and> \<not> AUTO_SELL_ENABLED cfg) \<or> ?k \<in> set (seen st)")
    case True
    with Some sig show ?thesis by (auto simp add: processLog_def)
  next
    case False
    with Some sig have pl: "processLog cfg t st (lg, env) = (fst ?r, SeenPush ?k # snd ?r)"
      by (auto simp add: processLog_def Let_def)
    from afterSeen_ok [of ?s1 cfg t lg env token sd]
    have "pushes (snd ?r) = []" and
      "fst ?r = ?s1 \<or> (\<exists>tr. fst ?r = ?s1\<lparr>trades := trades ?s1 @ [tr]\<rparr>)"
      by (auto simp add: eff_ok_def)
    then have "pushes (snd ?r) = []" and "seen (fst ?r) = seen st @ [?k]"
      and "trades (fst ?r) = trades st \<or> (\<exists>tr. trades (fst ?r) = trades st @ [tr])"
      by auto
    with Some sig False pl show ?thesis by auto
  qed
qed

lemma reload_seen: "seen (buildState (Some (persistState st now))) = slice_last 20000 (seen st)"
  by (simp add: buildState_def persistState_def)

text \<open>
  Claim C1, as amended. Within one process, over any number of scan cycles, each dedup key
  is pushed on the seen list at most once and never when it is already there; a log
  either changes nothing and has no effect, or pushes its key first and then runs the
  pipeline once, appending at most one trade record; a signal whose key is in the seen
  list is dropped before any effect. Across a restart the seen list is the last 20000
  entries of the list at the last write: a key among them is still dropped, and a list
  of at most 20000 entries is reloaded whole.
\<close>

theorem dedup_at_most_once_in_process:
  "distinct (pushes (snd (runCycles cfg st cycs))) \<and>
   set (pushes (snd (runCycles cfg st cycs))) \<inter> set (seen st) = {} \<and>
   seen (fst (runCycles cfg st cycs)) = seen st @ pushes (snd (runCycles cfg st cycs)) \<and>
   (processLog cfg t st (lg, env) = (st, []) \<or>
    (\<exists>hash token sd rest.
       classifyLog cfg t lg = Some (hash, token, sd) \<and>
       dedupKey hash token sd \<notin> set (seen st) \<and>
       snd (processLog cfg t st (lg, env)) = SeenPush (dedupKey hash token sd) # rest \<and>
       pushes rest = [] \<and>
       seen (fst (processLog cfg t st (lg, env))) = seen st @ [dedupKey hash token sd] \<and>
       (trades (fst (processLog cfg t st (lg, env))) = trades st \<or>
        (\<exists>tr. trades (fst (processLog cfg t st (lg, env))) = trades st @ [tr])))) \<and>
   (classifyLog cfg t lg = Some (h, tok, sd') \<and> dedupKey h tok sd' \<in> set (seen st) \<longrightarrow>
      processLog cfg t st (lg, env) = (st, [])) \<and>
   (k \<in> set (slice_last 20000 (seen st)) \<longrightarrow>
      k \<in> set (seen (buildState (Some (persistState st now))))) \<and>
   (length (seen st) \<le> 20000 \<longrightarrow> seen (buildState (Some (persistState st now))) = seen st)"
proof -
  have run: "distinct (pushes (snd (runCycles cfg st cycs)))"
    "set (pushes (snd (runCycles cfg st cycs))) \<inter> set (seen st) = {}"
    "seen (fst (runCycles cfg st cycs)) = seen st @ pushes (snd (runCycles cfg st cycs))"
    using runCycles_seen [of st cfg cycs] by (simp_all add: seen_inv_def)
  have drop: "processLog cfg t st (lg, env) = (st, [])"
    if "classifyLog cfg t lg = Some (h, tok, sd')" and "dedupKey h tok sd' \<in> set (seen st)"
    using that by (simp add: processLog_def)
  have keep: "k \<in> set (seen (buildState (Some (persistState st now))))"
    if "k \<in> set (slice_last 20000 (seen st))"
    using that by (simp add: reload_seen)
  have all: "seen (buildState (Some (persistState st now))) = seen st" if "length (seen st) \<le> 20000"
    using that by (simp add: reload_seen slice_last_def)
  show ?thesis
    using run processLog_cases [of cfg t st lg env] drop keep all by blast
qed

theorem dedup_at_most_once_in_process_witness:
  "distinct (pushes (snd (runCycles ex_cfg ex_state [ex_cycleBuy]))) \<and>
   seen (fst (processBlock ex_cfg ex_state 11 (Some ex_blockBuy))) = [dedupKey ''0xaa'' ex_token Buy] \<and>
   processLog ex_cfg ex_tx (fst (processBlock ex_cfg ex_state 11 (Some ex_blockBuy))) (ex_buyLog, ex_env) =
     (fst (processBlock ex_cfg ex_state 11 (Some ex_blockBuy)), []) \<and>
   seen (buildState (Some (persistState (fst (processBlock ex_cfg ex_state 11 (Some ex_blockBuy))) 0))) =
     seen (fst (processBlock ex_cfg ex_state 11 (Some ex_blockBuy)))"
proof -
  let ?P = "fst (processBlock ex_cfg ex_state 11 (Some ex_blockBuy))"
  have sP: "seen ?P = [dedupKey ''0xaa'' ex_token Buy]" by code_simp
  have h1: "classifyLog ex_cfg ex_tx ex_buyLog = Some (''0xaa'', ex_token, Buy)" by code_simp
  have h2: "dedupKey ''0xaa'' ex_token Buy \<in> set (seen ?P)" by (simp add: sP)
  have h3: "length (seen ?P) \<le> 20000" by (simp add: sP)
  have h4: "dedupKey ''0xaa'' ex_token Buy \<in> set (slice_last 20000 (seen ?P))"
    by (simp add: sP slice_last_def)
  have d: "distinct (pushes (snd (runCycles ex_cfg ex_state [ex_cycleBuy])))"
    using dedup_at_most_once_in_process [of ex_cfg ex_state "[ex_cycleBuy]"] by blast
  from dedup_at_most_once_in_process [of ex_cfg ?P "[]" ex_tx ex_buyLog ex_env
        "''0xaa''" ex_token Buy "dedupKey ''0xaa'' ex_token Buy" 0] h1 h2 h3 h4
  have p: "processLog ex_cfg ex_tx ?P (ex_buyLog, ex_env) = (?P, [])"
    and r: "seen (buildState (Some (persistState ?P 0))) = seen ?P"
    by blast+
  from sP d p r show ?thesis by simp
qed

lemma ex_oldKeys_length: "length ex_oldKeys = 20000"
  by (simp add: ex_oldKeys_def)

lemma ex_oldKeys_hd: "x \<in> set ex_oldKeys \<Longrightarrow> hd x = CHR ''1''"
  by (auto simp add: ex_oldKeys_def)

lemma ex_key_fresh: "dedupKey ''0xaa'' ex_token Buy \<notin> set ex_oldKeys"
proof
  assume "dedupKey ''0xaa'' ex_token Buy \<in> set ex_oldKeys"
  then have "hd (dedupKey ''0xaa'' ex_token Buy) = CHR ''1''" by (rule ex_oldKeys_hd)
  then show False by (simp add: dedupKey_def)
qed

lemma ex_reloaded_eq:
  "ex_reloaded = \<lparr>seen = ex_oldKeys, trades = [ex_firstTrade], lastRunAt = Some 4000000,
                  lastScannedBlock = Some 10\<rparr>"
  by (simp add: ex_reloaded_def buildState_def persistState_def ex_fullState_def slice_last_def
      ex_oldKeys_length)

text \<open>
  The claim as stated covers restarts without that bound. Here the identity of
  \<open>ex_buyLog\<close> was mirrored once and is in the seen list, followed by 20000 later keys.
  Before the restart the signal is dropped; the state file keeps only the last 20000
  keys, so after the restart the same signal requests a quote and appends a second trade
  record for the same watched transaction.
\<close>

theorem evicted_identity_executed_again:
  "classifyLog ex_cfg ex_tx ex_buyLog = Some (''0xaa'', ex_token, Buy) \<and>
   dedupKey ''0xaa'' ex_token Buy \<in> set (seen ex_fullState) \<and>
   map watchedHash (trades ex_fullState) = [''0xaa''] \<and>
   processLog ex_cfg ex_tx ex_fullState (ex_buyLog, ex_env) = (ex_fullState, []) \<and>
   dedupKey ''0xaa'' ex_token Buy \<notin> set (seen ex_reloaded) \<and>
   QuoteReq ETH_PLACEHOLDER ex_token (TRADE_WEI ex_cfg)
     \<in> set (snd (processLog ex_cfg ex_tx ex_reloaded (ex_buyLog, ex_env))) \<and>
   map watchedHash (trades (fst (processLog ex_cfg ex_tx ex_reloaded (ex_buyLog, ex_env)))) =
     [''0xaa'', ''0xaa'']"
proof -
  have cl: "classifyLog ex_cfg ex_tx ex_buyLog = Some (''0xaa'', ex_token, Buy)" by code_simp
  have mem: "dedupKey ''0xaa'' ex_token Buy \<in> set (seen ex_fullState)"
    by (simp add: ex_fullState_def)
  have tr: "map watchedHash (trades ex_fullState) = [''0xaa'']"
    by (simp add: ex_fullState_def ex_firstTrade_def)
  have dropped: "processLog ex_cfg ex_tx ex_fullState (ex_buyLog, ex_env) = (ex_fullState, [])"
    using cl mem by (simp add: processLog_def)
  have fresh: "dedupKey ''0xaa'' ex_token Buy \<notin> set (seen ex_reloaded)"
    using ex_key_fresh by (simp add: ex_reloaded_eq)
  let ?s1 = "ex_reloaded\<lparr>seen := seen ex_reloaded @ [dedupKey ''0xaa'' ex_token Buy]\<rparr>"
  have pl: "processLog ex_cfg ex_tx ex_reloaded (ex_buyLog, ex_env) =
      (fst (afterSeen ex_cfg ex_tx ?s1 ex_buyLog ex_env ex_token Buy),
       SeenPush (dedupKey ''0xaa'' ex_token Buy)
         # snd (afterSeen ex_cfg ex_tx ?s1 ex_buyLog ex_env ex_token Buy))"
    using cl fresh by (simp add: processLog_def Let_def)
  have gate: "isTradeAllowedByRate ?s1 (MAX_TRADES_PER_HOUR ex_cfg) (COOLDOWN_SECONDS ex_cfg)
      (nowGate ex_env) = Ok"
    by (simp add: isTradeAllowedByRate_def recentTrades_def ex_reloaded_eq ex_firstTrade_def
        ex_cfg_def ex_env_def)
  have ign: "IGNORE_TOKENS ex_cfg = []" and dat: "lg_data ex_buyLog = Some 1000"
    and adr: "lg_address ex_buyLog = ex_token"
    and q: "quote1 ex_env = Some ex_quote" and dry: "DRY_RUN ex_cfg"
    and qt: "q_to ex_quote \<noteq> []" "q_data ex_quote \<noteq> []"
    and h: "tx_hash ex_tx = ''0xaa''"
    by (simp_all add: ex_cfg_def ex_buyLog_def ex_env_def ex_quote_def ex_tx_def)
  have as: "afterSeen ex_cfg ex_tx ?s1 ex_buyLog ex_env ex_token Buy =
      buyPath ex_cfg ex_tx ?s1 ex_buyLog ex_env 1000"
    using gate ign dat by (simp add: afterSeen_def)
  have q1: "QuoteReq ETH_PLACEHOLDER ex_token (TRADE_WEI ex_cfg)
      \<in> set (snd (buyPath ex_cfg ex_tx ?s1 ex_buyLog ex_env 1000))"
    using q dry qt adr by (simp add: buyPath_def Let_def)
  have t2: "map watchedHash (trades (fst (buyPath ex_cfg ex_tx ?s1 ex_buyLog ex_env 1000))) =
      [''0xaa'', ''0xaa'']"
    using q dry qt h by (simp add: buyPath_def Let_def ex_reloaded_eq ex_firstTrade_def)
  show ?thesis
    using cl mem tr dropped fresh q1 t2 unfolding pl as by simp
qed

section \<open>The rate window\<close>

lemma filter_length_mono:
  "(\<forall>x \<in> set xs. P x \<longrightarrow> Q x) \<Longrightarrow> length (filter P xs) \<le> length (filter Q xs)"
  by (induction xs) auto

lemma filter_length_strict:
  "(\<forall>x \<in> set xs. P x \<longrightarrow> Q x) \<Longrightarrow> \<exists>x \<in> set xs. Q x \<and> \<not> P x \<Longrightarrow>
   length (filter P xs) < length (filter Q xs)"
proof (induction xs)
  case Nil
  then show ?case by simp
next
  case (Cons a xs)
  show ?case
  proof (cases "Q a \<and> \<not> P a")
    case True
    have "length (filter P xs) \<le> length (filter Q xs)"
      using Cons.prems(1) by (intro filter_length_mono) simp
    with True show ?thesis by simp
  next
    case False
    with Cons.prems have "\<exists>x \<in> set xs. Q x \<and> \<not> P x" by auto
    with Cons.IH Cons.prems(1) have "length (filter P xs) < length (filter Q xs)" by simp
    with Cons.prems(1) show ?thesis by auto
  qed
qed

lemma rate_reached_iff:
  "isTradeAllowedByRate st cap cd now = RateReached \<longleftrightarrow> cap \<le> int (length (recentTrades st now))"
  by (simp add: isTradeAllowedByRate_def)

lemma oldest_counted:
  assumes "recentTrades st now0 \<noteq> []"
  shows "\<exists>t \<in> set (trades st). now0 - 60 * 60 * 1000 \<le> tsMs t \<and>
           tsMs t = Min (set (map tsMs (recentTrades st now0)))"
proof -
  have "Min (set (map tsMs (recentTrades st now0))) \<in> set (map tsMs (recentTrades st now0))"
    using assms by (intro Min_in) simp_all
  then show ?thesis by (auto simp add: recentTrades_def)
qed

text \<open>
  Claim C7, as amended. The rate check denies exactly when the number of trade records
  with a timestamp in the trailing 60 minutes is at or above the cap. If at some moment
  at most the cap is counted, the check passes from the moment the oldest counted trade's
  timestamp is outside the window; if the cap is reached, the check stays closed for as
  long as the oldest counted trade is still inside the window.
\<close>

theorem rate_gate_window:
  "(isTradeAllowedByRate st cap cd now = RateReached \<longleftrightarrow>
      cap \<le> int (length (recentTrades st now))) \<and>
   (int (length (recentTrades st now0)) \<le> cap \<and> now0 \<le> now1 \<and> recentTrades st now0 \<noteq> [] \<and>
    Min (set (map tsMs (recentTrades st now0))) < now1 - 60 * 60 * 1000 \<longrightarrow>
      isTradeAllowedByRate st cap cd now1 \<noteq> RateReached) \<and>
   (cap \<le> int (length (recentTrades st now0)) \<and> now0 \<le> now1 \<and> recentTrades st now0 \<noteq> [] \<and>
    now1 - 60 * 60 * 1000 \<le> Min (set (map tsMs (recentTrades st now0))) \<longrightarrow>
      isTradeAllowedByRate st cap cd now1 = RateReached)"
proof -
  have leaves: "isTradeAllowedByRate st cap cd now1 \<noteq> RateReached"
    if "int (length (recentTrades st now0)) \<le> cap" and "now0 \<le> now1"
      and "recentTrades st now0 \<noteq> []"
      and "Min (set (map tsMs (recentTrades st now0))) < now1 - 60 * 60 * 1000"
  proof -
    from oldest_counted [OF that(3)] that(4)
    have "\<exists>t \<in> set (trades st). now0 - 60 * 60 * 1000 \<le> tsMs t \<and> \<not> now1 - 60 * 60 * 1000 \<le> tsMs t"
      by auto
    moreover have "\<forall>t \<in> set (trades st). now1 - 60 * 60 * 1000 \<le> tsMs t \<longrightarrow> now0 - 60 * 60 * 1000 \<le> tsMs t"
      using that(2) by auto
    ultimately have "length (recentTrades st now1) < length (recentTrades st now0)"
      unfolding recentTrades_def by (intro filter_length_strict)
    with that(1) show ?thesis by (simp add: rate_reached_iff)
  qed
  have stays: "isTradeAllowedByRate st cap cd now1 = RateReached"
    if "cap \<le> int (length (recentTrades st now0))" and "now0 \<le> now1"
      and "recentTrades st now0 \<noteq> []"
      and "now1 - 60 * 60 * 1000 \<le> Min (set (map tsMs (recentTrades st now0)))"
  proof -
    have "now1 - 60 * 60 * 1000 \<le> tsMs t" if "t \<in> set (trades st)" "now0 - 60 * 60 * 1000 \<le> tsMs t" for t
    proof -
      from that have "tsMs t \<in> set (map tsMs (recentTrades st now0))"
        by (auto simp add: recentTrades_def)
      then have "Min (set (map tsMs (recentTrades st now0))) \<le> tsMs t"
        by (intro Min_le) simp_all
      with \<open>now1 - 60 * 60 * 1000 \<le> Min (set (map tsMs (recentTrades st now0)))\<close>
      show ?thesis by simp
    qed
    then have "length (recentTrades st now0) \<le> length (recentTrades st now1)"
      unfolding recentTrades_def by (intro filter_length_mono) auto
    with that(1) show ?thesis by (simp add: rate_reached_iff)
  qed
  show ?thesis using rate_reached_iff [of st cap cd now] leaves stays by blast
qed

theorem rate_gate_window_witness:
  "isTradeAllowedByRate ex_rateState 2 45 100000 = RateReached \<and>
   isTradeAllowedByRate ex_rateState 2 45 200000 = RateReached \<and>
   isTradeAllowedByRate ex_rateState 2 45 3600500 \<noteq> RateReached"
proof -
  have ts: "map tsMs (recentTrades ex_rateState 100000) = [0, 60000]" by code_simp
  have ne: "recentTrades ex_rateState 100000 \<noteq> []" using ts by auto
  have len: "length (recentTrades ex_rateState 100000) = 2"
    using ts by (metis length_map length_Cons list.size(3) numeral_2_eq_2)
  have mn: "Min (set (map tsMs (recentTrades ex_rateState 100000))) = 0"
    unfolding ts by simp
  have a: "isTradeAllowedByRate ex_rateState 2 45 100000 = RateReached"
    using rate_gate_window [where st = ex_rateState and cap = 2 and cd = 45 and now = 100000] len by simp
  have hb: "2 \<le> int (length (recentTrades ex_rateState 100000)) \<and> (100000::int) \<le> 200000 \<and>
      recentTrades ex_rateState 100000 \<noteq> [] \<and>
      200000 - 60 * 60 * 1000 \<le> Min (set (map tsMs (recentTrades ex_rateState 100000)))"
    unfolding mn using len ne by simp
  have b: "isTradeAllowedByRate ex_rateState 2 45 200000 = RateReached"
    using rate_gate_window [where st = ex_rateState and cap = 2 and cd = 45
        and ?now0.0 = 100000 and ?now1.0 = 200000] hb by blast
  have hc: "int (length (recentTrades ex_rateState 100000)) \<le> 2 \<and> (100000::int) \<le> 3600500 \<and>
      recentTrades ex_rateState 100000 \<noteq> [] \<and>
      Min (set (map tsMs (recentTrades ex_rateState 100000))) < 3600500 - 60 * 60 * 1000"
    unfolding mn using len ne by simp
  have c: "isTradeAllowedByRate ex_rateState 2 45 3600500 \<noteq> RateReached"
    using rate_gate_window [where st = ex_rateState and cap = 2 and cd = 45
        and ?now0.0 = 100000 and ?now1.0 = 3600500] hc by blast
  from a b c show ?thesis by simp
qed

text \<open>
  The claim as stated lets the check pass as soon as the oldest counted trade leaves the
  window, whatever the count. With two trades recorded a minute apart and a cap of one
  (the cap is read from the environment at every start, the trades from the state file),
  the check is still closed after the older trade has left the window.
\<close>

theorem rate_gate_above_cap_stays_closed:
  "map tsMs (recentTrades ex_rateState 100000) = [0, 60000] \<and>
   isTradeAllowedByRate ex_rateState 1 45 100000 = RateReached \<and>
   (0::int) < 3600500 - 60 * 60 * 1000 \<and>
   map tsMs (recentTrades ex_rateState 3600500) = [60000] \<and>
   isTradeAllowedByRate ex_rateState 1 45 3600500 = RateReached"
  by code_simp

section \<open>Average-cost accounting\<close>

lemma recordFill_same:
  "recordFill ps token f now token = Some (applyFill (positionOf ps token) f now)"
  by (simp add: recordFill_def positionOf_def)

lemma recordFill_other: "token' \<noteq> token \<Longrightarrow> recordFill ps token' f now token = ps token"
  by (simp add: recordFill_def)

lemma recordBuys_position:
  "recordBuys ps token bs token = Some p \<Longrightarrow>
     realizedPnlWei p = realizedPnlWei (positionOf ps token) \<and>
     qtyOpenRaw p = qtyOpenRaw (positionOf ps token) + sum_list (map fst bs) \<and>
     costOpenWei p = costOpenWei (positionOf ps token) + sum_list (map (fst \<circ> snd) bs)"
proof (induction bs arbitrary: ps)
  case Nil
  then show ?case by (simp add: positionOf_def)
next
  case (Cons b bs)
  obtain q spent now where b: "b = (q, spent, now)" by (cases b)
  let ?ps = "recordFill ps token (BuyFill q spent) now"
  have pos: "positionOf ?ps token = applyFill (positionOf ps token) (BuyFill q spent) now"
    by (simp add: positionOf_def recordFill_same)
  from Cons.prems b have "recordBuys ?ps token bs token = Some p" by simp
  from Cons.IH [OF this] show ?case
    unfolding pos b by simp
qed

text \<open>
  Claim C2. After any sequence of buy fills for a token, a sell fill of quantity \<open>q\<close>
  with \<open>0 < q \<le> qtyOpen\<close> increases the token's realized PnL by exactly the proceeds
  minus \<open>q * (costOpen / qtyOpen)\<close>, both read just before the sell; open quantity
  decreases by \<open>q\<close> and open cost by the same share, so the average cost of what stays
  open is unchanged; buy fills and fills for other tokens leave the realized PnL as it
  was.
\<close>

theorem sell_fill_realized_pnl:
  assumes "recordBuys ps token bs token = Some p" and "0 < q" and "q \<le> qtyOpenRaw p"
  shows "\<exists>p'. recordFill (recordBuys ps token bs) token (SellFill q proceeds) now token = Some p' \<and>
     realizedPnlWei p' = realizedPnlWei p + (proceeds - q * (costOpenWei p / qtyOpenRaw p)) \<and>
     qtyOpenRaw p' = qtyOpenRaw p - q \<and>
     costOpenWei p' = costOpenWei p - q * (costOpenWei p / qtyOpenRaw p) \<and>
     costOpenWei p' * qtyOpenRaw p = costOpenWei p * qtyOpenRaw p' \<and>
     soldRaw p' = soldRaw p + q \<and>
     totalSellEthWei p' = totalSellEthWei p + proceeds \<and>
     realizedPnlWei p = (case ps token of None \<Rightarrow> 0 | Some p0 \<Rightarrow> realizedPnlWei p0) \<and>
     (ps token = None \<longrightarrow>
        realizedPnlWei p' =
          proceeds - q * (sum_list (map (fst \<circ> snd) bs) / sum_list (map fst bs))) \<and>
     (\<forall>q' spent now'. realizedPnlWei (applyFill p (BuyFill q' spent) now') = realizedPnlWei p) \<and>
     (\<forall>token' f now'. token' \<noteq> token \<longrightarrow>
        recordFill (recordBuys ps token bs) token' f now' token = Some p)"
proof -
  let ?p' = "applyFill p (SellFill q proceeds) now"
  have pos: "positionOf (recordBuys ps token bs) token = p"
    using assms(1) by (simp add: positionOf_def)
  have sell: "recordFill (recordBuys ps token bs) token (SellFill q proceeds) now token = Some ?p'"
    by (simp add: recordFill_same pos)
  have qty: "qtyOpenRaw p \<noteq> 0" using assms(2,3) by simp
  have avg: "costOpenWei ?p' * qtyOpenRaw p = costOpenWei p * qtyOpenRaw ?p'"
    using qty by (simp add: field_simps)
  from recordBuys_position [OF assms(1)]
  have buys: "realizedPnlWei p = realizedPnlWei (positionOf ps token)"
    "qtyOpenRaw p = qtyOpenRaw (positionOf ps token) + sum_list (map fst bs)"
    "costOpenWei p = costOpenWei (positionOf ps token) + sum_list (map (fst \<circ> snd) bs)"
    by simp_all
  have init: "realizedPnlWei p = (case ps token of None \<Rightarrow> 0 | Some p0 \<Rightarrow> realizedPnlWei p0)"
    using buys(1) by (simp add: positionOf_def emptyPosition_def split: option.splits)
  have fresh: "realizedPnlWei ?p' =
      proceeds - q * (sum_list (map (fst \<circ> snd) bs) / sum_list (map fst bs))"
    if "ps token = None"
    using that buys by (simp add: positionOf_def emptyPosition_def)
  have other: "recordFill (recordBuys ps token bs) token' f now' token = Some p"
    if "token' \<noteq> token" for token' f now'
    using that assms(1) by (simp add: recordFill_other)
  show ?thesis
  proof (intro exI [of _ ?p'] conjI allI impI)
    show "recordFill (recordBuys ps token bs) token (SellFill q proceeds) now token = Some ?p'"
      by (rule sell)
    show "costOpenWei ?p' * qtyOpenRaw p = costOpenWei p * qtyOpenRaw ?p'" by (rule avg)
    show "realizedPnlWei p = (case ps token of None \<Rightarrow> 0 | Some p0 \<Rightarrow> realizedPnlWei p0)"
      by (rule init)
    show "realizedPnlWei ?p' =
        proceeds - q * (sum_list (map (fst \<circ> snd) bs) / sum_list (map fst bs))"
      if "ps token = None" using that by (rule fresh)
    show "recordFill (recordBuys ps token bs) token' f now' token = Some p"
      if "token' \<noteq> token" for token' f now' using that by (rule other)
  qed simp_all
qed

theorem sell_fill_realized_pnl_witness:
  "\<exists>p'. recordFill (recordBuys Map.empty ex_token ex_buys) ex_token (SellFill 100 2000) 3 ex_token = Some p' \<and>
     realizedPnlWei p' = 500 \<and> qtyOpenRaw p' = 300 \<and> costOpenWei p' = 4500"
proof -
  let ?p = "\<lparr>boughtRaw = 400, soldRaw = 0, qtyOpenRaw = 400, costOpenWei = 6000,
             totalBuyEthWei = 6000, totalSellEthWei = 0, realizedPnlWei = 0, tradesBuy = 2,
             tradesSell = 0, lastUpdateMs = 2\<rparr>"
  have h1: "recordBuys Map.empty ex_token ex_buys ex_token = Some ?p"
    by (simp add: ex_buys_def recordFill_def emptyPosition_def)
  have h2: "(0::rat) < 100" by simp
  have h3: "100 \<le> qtyOpenRaw ?p" by simp
  from sell_fill_realized_pnl [OF h1 h2 h3, of 2000 3]
  obtain p' where "recordFill (recordBuys Map.empty ex_token ex_buys) ex_token (SellFill 100 2000) 3 ex_token = Some p'"
    "realizedPnlWei p' = realizedPnlWei ?p + (2000 - 100 * (costOpenWei ?p / qtyOpenRaw ?p))"
    "qtyOpenRaw p' = qtyOpenRaw ?p - 100"
    "costOpenWei p' = costOpenWei ?p - 100 * (costOpenWei ?p / qtyOpenRaw ?p)"
    by blast
  then show ?thesis by (intro exI [of _ p']) simp
qed

end
